theory Spec2Isabelle
  imports Main "HOL-Library.Word" "HOL-Library.Signed_Division"
begin

section \<open>Data model\<close>

text \<open>
  The downloader of \<^verbatim>\<open>main.go\<close>. Go's \<^verbatim>\<open>int\<close> is the 64-bit two's complement
  integer of the usual platforms: a \<open>64 word\<close>, read with \<open>sint\<close> and compared with
  \<open><s\<close>; \<open>+\<close>, \<open>-\<close> and \<open>*\<close> wrap around as Go's do. \<^verbatim>\<open>int64\<close> is the same type.
\<close>

type_synonym go_int = "64 word"

type_synonym byte = "8 word"

text \<open>A Go \<^verbatim>\<open>error\<close> value, as its message.\<close>

type_synonym error = string

record HttpDownloader =
  url :: string
  filename :: string
  contentLength :: go_int
  acceptRanges :: bool
  numRoutines :: go_int

text \<open>
  Go's \<^verbatim>\<open>x / y\<close> on \<^verbatim>\<open>int\<close>: the quotient truncated towards zero, wrapped to 64
  bits (so the most negative value divided by \<open>-1\<close> is itself). The caller checks
  \<open>y = 0\<close> first, where Go panics.
\<close>

definition quo :: "go_int \<Rightarrow> go_int \<Rightarrow> go_int" where
  "quo x y = word_of_int (sint x sdiv sint y)"

text \<open>
  The run-time panics the program can raise: the integer division of \<^verbatim>\<open>Split\<close> by
  zero, \<^verbatim>\<open>make(chan bool, n)\<close> with a negative \<open>n\<close>, and an index beyond the end of
  a slice.
\<close>

datatype panic = DivideByZero | MakechanSizeOutOfRange | IndexOutOfRange

section \<open>Split\<close>

text \<open>
  The \<^verbatim>\<open>for i := 0; i < h.numRoutines; i++\<close> loop of \<^verbatim>\<open>Split\<close>, with the
  slice \<^verbatim>\<open>ranges\<close> as accumulator. Each element is the two-element slice
  \<^verbatim>\<open>[]int{start, end}\<close>; \<open>end0\<close> is \<^verbatim>\<open>end\<close> as first computed and \<open>end1\<close> after
  the override for the last task.
\<close>

function Split_loop :: "HttpDownloader \<Rightarrow> go_int \<Rightarrow> go_int \<Rightarrow> go_int list list \<Rightarrow> go_int list list" where
  "Split_loop h blockSize i ranges =
     (if i <s numRoutines h then
        (let start = i * blockSize;
             end0 = (i + 1) * blockSize - 1;
             end1 = (if i = numRoutines h - 1 then contentLength h - 1 else end0)
         in Split_loop h blockSize (i + 1) (ranges @ [[start, end1]]))
      else ranges)"
  by pat_completeness auto
termination
proof (relation "measure (\<lambda>(h, blockSize, i, ranges). nat (sint (numRoutines h) - sint i))")
  show "wf (measure (\<lambda>(h, blockSize, i, ranges). nat (sint (numRoutines h) - sint i)))"
    by simp
next
  fix h :: HttpDownloader and blockSize i :: go_int and ranges :: "go_int list list"
    and x xa xb :: go_int
  assume "i <s numRoutines h"
  then have lt: "sint i < sint (numRoutines h)"
    by (simp add: word_sless_alt)
  moreover have "sint (numRoutines h) < 2 ^ 63"
    using sint_lt [of "numRoutines h"] by simp
  moreover have "- (2 ^ 63) \<le> sint i"
    using sint_ge [of i] by simp
  ultimately have "sint (i + 1) = sint i + 1"
    by (simp add: sint_word_ariths signed_take_bit_int_eq_self)
  with lt show "((h, blockSize, i + 1, ranges @ [[x, xb]]), (h, blockSize, i, ranges))
      \<in> measure (\<lambda>(h, blockSize, i, ranges). nat (sint (numRoutines h) - sint i))"
    by simp
qed

declare Split_loop.simps [simp del]

text \<open>
  \<^verbatim>\<open>Split\<close>: \<^verbatim>\<open>blockSize := h.contentLength / h.numRoutines\<close> panics when
  \<^verbatim>\<open>numRoutines\<close> is zero; otherwise the loop runs from \<open>i = 0\<close> on the nil slice.
\<close>

definition Split :: "HttpDownloader \<Rightarrow> panic + go_int list list" where
  "Split h =
     (if numRoutines h = 0 then Inl DivideByZero
      else Inr (Split_loop h (quo (contentLength h) (numRoutines h)) 0 []))"

text \<open>
  The slice that the body of the loop appends when \<open>i\<close> is the number \<open>k\<close>.
\<close>

definition Split_entry :: "HttpDownloader \<Rightarrow> go_int \<Rightarrow> nat \<Rightarrow> go_int list" where
  "Split_entry h blockSize k =
     [word_of_nat k * blockSize,
      if word_of_nat k = numRoutines h - 1 then contentLength h - 1
      else (word_of_nat k + 1) * blockSize - 1]"

text \<open>
  A range \<^verbatim>\<open>[]int{start, end}\<close> is sent as \<^verbatim>\<open>bytes=start-end\<close>, both ends
  included: its start, its end, and the set of byte offsets it asks for.
\<close>

definition range_start :: "go_int list \<Rightarrow> int" where
  "range_start r = sint (r ! 0)"

definition range_end :: "go_int list \<Rightarrow> int" where
  "range_end r = sint (r ! 1)"

definition range_bytes :: "go_int list \<Rightarrow> int set" where
  "range_bytes r = {range_start r .. range_end r}"

section \<open>The world outside the program\<close>

text \<open>
  An HTTP request as the program builds it, and a response as it reads it: the header of
  a response is the map \<^verbatim>\<open>resp.Header\<close> from (canonical) names to the list of values,
  and \<open>Body\<close> is what \<^verbatim>\<open>ioutil.ReadAll(resp.Body)\<close> gives, an error or the content.
\<close>

record Request =
  Method :: string
  URL :: string
  ReqHeader :: "string \<rightharpoonup> string list"

record Response =
  StatusCode :: int
  Header :: "string \<rightharpoonup> string list"
  ContentLength :: go_int
  Body :: "error + byte list"

text \<open>An open file: its name and the offset of the next write.\<close>

record File =
  fname :: string
  pos :: go_int

text \<open>Every call the program makes to the network or the file system, in order.\<close>

datatype call =
    HttpDo Request
  | OsCreate string
  | OsOpenFile string
  | FileSeek string go_int
  | ReadAll
  | FileWrite string go_int "byte list"

text \<open>
  The network, the file system's failures and the URL parser are parameters: each says,
  for a call, whether it fails and with which error (\<open>None\<close>: it succeeds). So is the
  largest buffer size that the run-time system accepts in \<^verbatim>\<open>make(chan bool, n)\<close>, which
  depends on the platform.
\<close>

record World =
  ParseRequestURI_err :: "string \<Rightarrow> error option"
  NewRequest_err :: "string \<Rightarrow> string \<Rightarrow> error option"
  RoundTrip :: "Request \<Rightarrow> error + Response"
  Create_err :: "string \<Rightarrow> error option"
  OpenFile_err :: "string \<Rightarrow> error option"
  Seek_err :: "string \<Rightarrow> go_int \<Rightarrow> error option"
  Write_err :: "string \<Rightarrow> go_int \<Rightarrow> byte list \<Rightarrow> error option"
  MaxChanSize :: go_int

text \<open>
  The state the program acts on: the content of each file, the calls made so far, and
  the number of values sent on the channel \<^verbatim>\<open>success\<close>.
\<close>

record State =
  files :: "string \<rightharpoonup> byte list"
  calls :: "call list"
  success :: nat

text \<open>
  The process ends where \<^verbatim>\<open>log.Fatal\<close> or \<^verbatim>\<open>log.Fatalf\<close> is called (they log and
  call \<^verbatim>\<open>os.Exit(1)\<close>) or where a panic is raised: one constructor for each such place
  of \<^verbatim>\<open>main.go\<close>, with the error it reports.
\<close>

datatype fatal =
    InvalidUrl
  | RequestFailed
  | CreateFileFailed error
  | RequestUrlFailed string error
  | CreateRequestFailed error
  | ExecuteRequestFailed error
  | OpenFileFailed error
  | SeekFailed error
  | ReadBodyFailed error
  | WriteFailed error
  | Panic panic

subsection \<open>Library calls\<close>

text \<open>\<^verbatim>\<open>http.NewRequest(method, url, nil)\<close>: a request with an empty header.\<close>

definition http_NewRequest :: "World \<Rightarrow> string \<Rightarrow> string \<Rightarrow> error + Request" where
  "http_NewRequest w m u =
     (case NewRequest_err w m u of
        Some err \<Rightarrow> Inl err
      | None \<Rightarrow> Inr \<lparr>Method = m, URL = u, ReqHeader = Map.empty\<rparr>)"

text \<open>\<^verbatim>\<open>req.Header.Set(key, value)\<close> replaces the values of the key by the one value.\<close>

definition Header_Set :: "Request \<Rightarrow> string \<Rightarrow> string \<Rightarrow> Request" where
  "Header_Set req k v = req\<lparr>ReqHeader := (ReqHeader req)(k \<mapsto> [v])\<rparr>"

text \<open>\<^verbatim>\<open>http.DefaultClient.Do(req)\<close>.\<close>

definition client_Do :: "World \<Rightarrow> Request \<Rightarrow> State \<Rightarrow> (error + Response) \<times> State" where
  "client_Do w req s = (RoundTrip w req, s\<lparr>calls := calls s @ [HttpDo req]\<rparr>)"

text \<open>\<^verbatim>\<open>http.Head(url)\<close> and \<^verbatim>\<open>http.Get(url)\<close>: a new request, then \<^verbatim>\<open>Do\<close>.\<close>

definition http_Head :: "World \<Rightarrow> string \<Rightarrow> State \<Rightarrow> (error + Response) \<times> State" where
  "http_Head w u s =
     (case http_NewRequest w ''HEAD'' u of
        Inl err \<Rightarrow> (Inl err, s)
      | Inr req \<Rightarrow> client_Do w req s)"

definition http_Get :: "World \<Rightarrow> string \<Rightarrow> State \<Rightarrow> (error + Response) \<times> State" where
  "http_Get w u s =
     (case http_NewRequest w ''GET'' u of
        Inl err \<Rightarrow> (Inl err, s)
      | Inr req \<Rightarrow> client_Do w req s)"

text \<open>A lookup in a Go map of slices: the nil slice for a missing key.\<close>

definition header_values :: "(string \<rightharpoonup> string list) \<Rightarrow> string \<Rightarrow> string list" where
  "header_values m k = (case m k of None \<Rightarrow> [] | Some vs \<Rightarrow> vs)"

text \<open>\<^verbatim>\<open>ioutil.ReadAll(resp.Body)\<close>.\<close>

definition ioutil_ReadAll :: "Response \<Rightarrow> State \<Rightarrow> (error + byte list) \<times> State" where
  "ioutil_ReadAll resp s = (Body resp, s\<lparr>calls := calls s @ [ReadAll]\<rparr>)"

text \<open>\<^verbatim>\<open>os.Create(name)\<close> creates the file or truncates it.\<close>

definition os_Create :: "World \<Rightarrow> string \<Rightarrow> State \<Rightarrow> (error + File) \<times> State" where
  "os_Create w name s =
     (case Create_err w name of
        Some err \<Rightarrow> (Inl err, s\<lparr>calls := calls s @ [OsCreate name]\<rparr>)
      | None \<Rightarrow>
          (Inr \<lparr>fname = name, pos = 0\<rparr>,
           s\<lparr>files := (files s)(name \<mapsto> []), calls := calls s @ [OsCreate name]\<rparr>))"

text \<open>
  \<^verbatim>\<open>os.OpenFile(name, os.O_WRONLY, 0660)\<close>: without \<^verbatim>\<open>O_CREATE\<close>, a file that does
  not exist is an error, reported with the operation and the name.
\<close>

definition os_OpenFile :: "World \<Rightarrow> string \<Rightarrow> State \<Rightarrow> (error + File) \<times> State" where
  "os_OpenFile w name s =
     (let s' = s\<lparr>calls := calls s @ [OsOpenFile name]\<rparr> in
      case OpenFile_err w name of
        Some err \<Rightarrow> (Inl err, s')
      | None \<Rightarrow>
          (if files s name = None
           then (Inl (''open '' @ name @ '': no such file or directory''), s')
           else (Inr \<lparr>fname = name, pos = 0\<rparr>, s')))"

text \<open>
  \<^verbatim>\<open>f.Seek(offset, 0)\<close>, from the start of the file: a negative offset is an error,
  reported with the operation and the name.
\<close>

definition file_Seek :: "World \<Rightarrow> File \<Rightarrow> go_int \<Rightarrow> State \<Rightarrow> (error + File) \<times> State" where
  "file_Seek w f offset s =
     (let s' = s\<lparr>calls := calls s @ [FileSeek (fname f) offset]\<rparr> in
      case Seek_err w (fname f) offset of
        Some err \<Rightarrow> (Inl err, s')
      | None \<Rightarrow>
          (if offset <s 0 then (Inl (''seek '' @ fname f @ '': invalid argument''), s')
           else (Inr (f\<lparr>pos := offset\<rparr>), s')))"

text \<open>
  The content of a file after \<open>content\<close> is written at offset \<open>off\<close>: the bytes before
  stay, a gap beyond the old end reads as zeros, the bytes after the block stay.
\<close>

definition write_at :: "byte list \<Rightarrow> nat \<Rightarrow> byte list \<Rightarrow> byte list" where
  "write_at old off content =
     take off old @ replicate (off - length old) 0 @ content @ drop (off + length content) old"

text \<open>
  \<^verbatim>\<open>f.Write(content)\<close> at the offset of the handle. A write that fails leaves the file
  as it was.
\<close>

definition file_Write :: "World \<Rightarrow> File \<Rightarrow> byte list \<Rightarrow> State \<Rightarrow> (error + nat) \<times> State" where
  "file_Write w f content s =
     (let s' = s\<lparr>calls := calls s @ [FileWrite (fname f) (pos f) content]\<rparr> in
      case Write_err w (fname f) (pos f) content of
        Some err \<Rightarrow> (Inl err, s')
      | None \<Rightarrow>
          (case files s (fname f) of
             None \<Rightarrow> (Inr (length content), s')
           | Some old \<Rightarrow>
               (Inr (length content),
                s'\<lparr>files := (files s)(fname f \<mapsto> write_at old (unat (pos f)) content)\<rparr>)))"

text \<open>\<^verbatim>\<open>path.Base\<close>: the last element of a slash-separated path.\<close>

definition path_Base :: "string \<Rightarrow> string" where
  "path_Base p =
     (if p = [] then ''.''
      else
        (let p1 = rev (dropWhile (\<lambda>c. c = CHR ''/'') (rev p));
             p2 = rev (takeWhile (\<lambda>c. c \<noteq> CHR ''/'') (rev p1))
         in if p2 = [] then ''/'' else p2))"

text \<open>The decimal digits of a number, and \<^verbatim>\<open>%v\<close> of an \<^verbatim>\<open>int\<close>.\<close>

fun decimal :: "nat \<Rightarrow> string" where
  "decimal n =
     (if n < 10 then [char_of (48 + n)]
      else decimal (n div 10) @ [char_of (48 + n mod 10)])"

declare decimal.simps [simp del]

definition format_int :: "go_int \<Rightarrow> string" where
  "format_int x =
     (if x <s 0 then ''-'' @ decimal (nat (- sint x)) else decimal (nat (sint x)))"

section \<open>The downloader\<close>

definition kUserAgent :: string where
  "kUserAgent = ''Mozilla/5.0 (Windows NT 10.0; Win64; x64) AppleWebKit/537.36 (KHTML, like Gecko) Chrome/99.0.4844.82 Safari/537.36''"

text \<open>
  A function of the program either ends the process, with the place and the state then,
  or returns.
\<close>

type_synonym 'a outcome = "(fatal \<times> State) + 'a"

text \<open>
  \<^verbatim>\<open>NewDownloader\<close>: the file name from the URL, a \<^verbatim>\<open>HEAD\<close> request, and the fields
  from its response.
\<close>

definition NewDownloader :: "World \<Rightarrow> string \<Rightarrow> go_int \<Rightarrow> State \<Rightarrow> (HttpDownloader \<times> State) outcome" where
  "NewDownloader w u numThreads s =
     (let name = path_Base u in
      case http_Head w u s of
        (Inl err, s') \<Rightarrow> Inl (RequestFailed, s')
      | (Inr resp, s') \<Rightarrow>
          Inr (\<lparr>url = u,
                filename = name,
                contentLength = ContentLength resp,
                acceptRanges =
                  (length (header_values (Header resp) ''Accept-Ranges'') \<noteq> 0
                   \<and> header_values (Header resp) ''Accept-Ranges'' ! 0 = ''bytes''),
                numRoutines = numThreads\<rparr>, s'))"

text \<open>\<^verbatim>\<open>save2file\<close>: open, seek, read the body, write.\<close>

definition save2file :: "World \<Rightarrow> string \<Rightarrow> go_int \<Rightarrow> Response \<Rightarrow> State \<Rightarrow> State outcome" where
  "save2file w name offset resp s =
     (case os_OpenFile w name s of
        (Inl err, s1) \<Rightarrow> Inl (OpenFileFailed err, s1)
      | (Inr f, s1) \<Rightarrow>
          (case file_Seek w f offset s1 of
             (Inl err, s2) \<Rightarrow> Inl (SeekFailed err, s2)
           | (Inr f', s2) \<Rightarrow>
               (case ioutil_ReadAll resp s2 of
                  (Inl err, s3) \<Rightarrow> Inl (ReadBodyFailed err, s3)
                | (Inr content, s3) \<Rightarrow>
                    (case file_Write w f' content s3 of
                       (Inl err, s4) \<Rightarrow> Inl (WriteFailed err, s4)
                     | (Inr n, s4) \<Rightarrow> Inr s4))))"

text \<open>\<^verbatim>\<open>download\<close>: one ranged \<^verbatim>\<open>GET\<close>, saved at the offset \<^verbatim>\<open>start\<close>.\<close>

definition download :: "World \<Rightarrow> HttpDownloader \<Rightarrow> go_int \<Rightarrow> go_int \<Rightarrow> State \<Rightarrow> State outcome" where
  "download w h start end0 s =
     (case http_NewRequest w ''GET'' (url h) of
        Inl err \<Rightarrow> Inl (CreateRequestFailed err, s)
      | Inr req \<Rightarrow>
          (let req1 = Header_Set req ''Range'' (''bytes='' @ format_int start @ ''-'' @ format_int end0);
               req2 = Header_Set req1 ''User-Agent'' kUserAgent
           in case client_Do w req2 s of
                (Inl err, s1) \<Rightarrow> Inl (ExecuteRequestFailed err, s1)
              | (Inr resp, s1) \<Rightarrow> save2file w (filename h) start resp s1))"

text \<open>
  The goroutine that \<^verbatim>\<open>Download\<close> starts for a range: \<^verbatim>\<open>h.download(start, end)\<close>
  and, deferred, \<^verbatim>\<open>success <- true\<close>. The deferred function runs when \<^verbatim>\<open>download\<close>
  returns; \<^verbatim>\<open>os.Exit\<close> inside \<^verbatim>\<open>log.Fatalf\<close> ends the process without running it.
\<close>

definition task :: "World \<Rightarrow> HttpDownloader \<Rightarrow> go_int \<Rightarrow> go_int \<Rightarrow> State \<Rightarrow> State outcome" where
  "task w h start end0 s =
     (case download w h start end0 s of
        Inl x \<Rightarrow> Inl x
      | Inr s' \<Rightarrow> Inr (s'\<lparr>success := success s' + 1\<rparr>))"

text \<open>
  The loop of \<^verbatim>\<open>Download\<close> over the ranges evaluates the arguments
  \<^verbatim>\<open>ranges[0], ranges[1]\<close> of each goroutine as it starts it: a slice with fewer than
  two elements is a panic.
\<close>

definition task_args :: "go_int list \<Rightarrow> panic + (go_int \<times> go_int)" where
  "task_args ranges =
     (case ranges of
        start # end0 # rest \<Rightarrow> Inr (start, end0)
      | _ \<Rightarrow> Inl IndexOutOfRange)"

fun launch :: "go_int list list \<Rightarrow> panic + (go_int \<times> go_int) list" where
  "launch [] = Inr []"
| "launch (ranges # rest) =
     (case task_args ranges of
        Inl p \<Rightarrow> Inl p
      | Inr t \<Rightarrow> (case launch rest of Inl p \<Rightarrow> Inl p | Inr ts \<Rightarrow> Inr (t # ts)))"

text \<open>
  The goroutines run concurrently, and share the network, the file system and the channel
  only. They are run here one at a time, each to its end, in an order that the schedule
  \<open>sched\<close> picks among the pending ones: its next number \<open>c\<close> picks the pending task of
  index \<open>c mod length pending\<close>, and a schedule that has run out picks the first. A task
  that ends the process ends the run; \<^verbatim>\<open>wg.Wait()\<close> returns when no task is pending.
\<close>

function run_tasks :: "World \<Rightarrow> HttpDownloader \<Rightarrow> nat list \<Rightarrow> (go_int \<times> go_int) list \<Rightarrow> State \<Rightarrow> State outcome" where
  "run_tasks w h sched pending s =
     (if pending = [] then Inr s
      else
        (let k = (case sched of [] \<Rightarrow> 0 | c # _ \<Rightarrow> c mod length pending)
         in case task w h (fst (pending ! k)) (snd (pending ! k)) s of
              Inl x \<Rightarrow> Inl x
            | Inr s' \<Rightarrow> run_tasks w h (tl sched) (take k pending @ drop (Suc k) pending) s'))"
  by pat_completeness auto
termination
proof (relation "measure (\<lambda>(w, h, sched, pending, s). length pending)")
  show "wf (measure (\<lambda>(w, h, sched, pending, s). length pending))"
    by simp
next
  fix w :: World and h :: HttpDownloader and sched :: "nat list"
    and pending :: "(go_int \<times> go_int) list" and s s' :: State and k :: nat
  assume "pending \<noteq> []" and k: "k = (case sched of [] \<Rightarrow> 0 | c # x \<Rightarrow> c mod length pending)"
  then have "k < length pending"
    by (cases sched) simp_all
  then show "((w, h, tl sched, take k pending @ drop (Suc k) pending, s'), (w, h, sched, pending, s))
      \<in> measure (\<lambda>(w, h, sched, pending, s). length pending)"
    by simp
qed

declare run_tasks.simps [simp del]

text \<open>
  \<^verbatim>\<open>Download\<close>. The goroutine that prints the progress bar only reads the channel and
  writes to the console; it is left out. \<^verbatim>\<open>make(chan bool, h.numRoutines)\<close> panics on a
  negative size and on a size beyond the limit of the run-time system, and \<^verbatim>\<open>h.Split()\<close>
  is evaluated before the first task is started.
\<close>

definition Download :: "World \<Rightarrow> HttpDownloader \<Rightarrow> nat list \<Rightarrow> State \<Rightarrow> State outcome" where
  "Download w h sched s =
     (case os_Create w (filename h) s of
        (Inl err, s0) \<Rightarrow> Inl (CreateFileFailed err, s0)
      | (Inr f, s0) \<Rightarrow>
          (if acceptRanges h = False then
             (case http_Get w (url h) s0 of
                (Inl err, s1) \<Rightarrow> Inl (RequestUrlFailed (url h) err, s1)
              | (Inr resp, s1) \<Rightarrow> save2file w (filename h) 0 resp s1)
           else
             (if numRoutines h <s 0 \<or> MaxChanSize w <s numRoutines h
              then Inl (Panic MakechanSizeOutOfRange, s0)
              else
                (case Split h of
                   Inl p \<Rightarrow> Inl (Panic p, s0)
                 | Inr ranges \<Rightarrow>
                     (case launch ranges of
                        Inl p \<Rightarrow> Inl (Panic p, s0)
                      | Inr tasks \<Rightarrow> run_tasks w h sched tasks s0)))))"

text \<open>\<^verbatim>\<open>main\<close>, with the two flags as arguments.\<close>

definition main :: "World \<Rightarrow> string \<Rightarrow> go_int \<Rightarrow> nat list \<Rightarrow> State \<Rightarrow> State outcome" where
  "main w downloadUrl n sched s =
     (case ParseRequestURI_err w downloadUrl of
        Some err \<Rightarrow> Inl (InvalidUrl, s)
      | None \<Rightarrow>
          (case NewDownloader w downloadUrl n s of
             Inl x \<Rightarrow> Inl x
           | Inr (downloader, s') \<Rightarrow> Download w downloader sched s'))"

section \<open>Concrete inputs\<close>

text \<open>A downloader for a file of the given length, with the given number of routines.\<close>

definition job :: "go_int \<Rightarrow> go_int \<Rightarrow> HttpDownloader" where
  "job len n =
     \<lparr>url = ''http://example.com/file.bin'', filename = ''file.bin'', contentLength = len,
      acceptRanges = True, numRoutines = n\<rparr>"

text \<open>A response with the given status code and body, and a state with no file.\<close>

definition reply :: "int \<Rightarrow> byte list \<Rightarrow> Response" where
  "reply code content =
     \<lparr>StatusCode = code, Header = Map.empty, ContentLength = word_of_nat (length content),
      Body = Inr content\<rparr>"

definition state0 :: State where
  "state0 = \<lparr>files = Map.empty, calls = [], success = 0\<rparr>"

text \<open>The state after the file of \<open>job\<close> is created.\<close>

definition state_created :: State where
  "state_created = \<lparr>files = [''file.bin'' \<mapsto> []], calls = [OsCreate ''file.bin''], success = 0\<rparr>"

text \<open>
  A world where no call fails and every request gets the same response, and a world
  where no connection can be made. The limit on a channel's buffer is the one of 64-bit
  Linux, \<open>2 ^ 48 - 96\<close>.
\<close>

definition world_replying :: "Response \<Rightarrow> World" where
  "world_replying resp =
     \<lparr>ParseRequestURI_err = (\<lambda>u. None),
      NewRequest_err = (\<lambda>m u. None),
      RoundTrip = (\<lambda>req. Inr resp),
      Create_err = (\<lambda>name. None),
      OpenFile_err = (\<lambda>name. None),
      Seek_err = (\<lambda>name offset. None),
      Write_err = (\<lambda>name offset content. None),
      MaxChanSize = 281474976710560\<rparr>"

definition world_refusing :: World where
  "world_refusing =
     \<lparr>ParseRequestURI_err = (\<lambda>u. None),
      NewRequest_err = (\<lambda>m u. None),
      RoundTrip = (\<lambda>req. Inl ''connection refused''),
      Create_err = (\<lambda>name. None),
      OpenFile_err = (\<lambda>name. None),
      Seek_err = (\<lambda>name offset. None),
      Write_err = (\<lambda>name offset content. None),
      MaxChanSize = 281474976710560\<rparr>"

section \<open>Observations\<close>

text \<open>
  What a run leaves to observe: the place where the process ended, if it did; the state
  at the end; the downloader that the probe made; the HTTP requests among the calls.
\<close>

definition fatal_of :: "State outcome \<Rightarrow> fatal option" where
  "fatal_of r = (case r of Inl (x, s) \<Rightarrow> Some x | Inr s \<Rightarrow> None)"

definition final_state :: "State outcome \<Rightarrow> State" where
  "final_state r = (case r of Inl (x, s) \<Rightarrow> s | Inr s \<Rightarrow> s)"

definition probed :: "(HttpDownloader \<times> State) outcome \<Rightarrow> HttpDownloader option" where
  "probed r = (case r of Inl x \<Rightarrow> None | Inr (h, s) \<Rightarrow> Some h)"

fun requests_of :: "call list \<Rightarrow> Request list" where
  "requests_of [] = []"
| "requests_of (HttpDo req # cs) = req # requests_of cs"
| "requests_of (c # cs) = requests_of cs"

text \<open>The request that \<^verbatim>\<open>download\<close> builds for a range.\<close>

definition range_request :: "HttpDownloader \<Rightarrow> go_int \<Rightarrow> go_int \<Rightarrow> Request" where
  "range_request h start end0 =
     \<lparr>Method = ''GET'', URL = url h,
      ReqHeader = [''Range'' \<mapsto> [''bytes='' @ format_int start @ ''-'' @ format_int end0],
                   ''User-Agent'' \<mapsto> [kUserAgent]]\<rparr>"

section \<open>Properties of Split\<close>

subsection \<open>Signed 64-bit arithmetic without wrap-around\<close>

lemma sint_bounds: "- (2 ^ 63) \<le> sint (w::go_int)" "sint (w::go_int) < 2 ^ 63"
  using sint_ge [of w] sint_lt [of w] by simp_all

lemma sint_succ: "i <s (n::go_int) \<Longrightarrow> sint (i + 1) = sint i + 1"
proof -
  assume "i <s n"
  then have "sint i < sint n" by (simp add: word_sless_alt)
  then show ?thesis
    using sint_bounds [of n] sint_bounds [of i]
    by (simp add: sint_word_ariths signed_take_bit_int_eq_self)
qed

lemma of_nat_nat_sint: "0 \<le> sint (i::go_int) \<Longrightarrow> word_of_nat (nat (sint i)) = i"
  using word_of_int_nat [of "sint i", where 'a=64] by simp

lemma sint_in_range: "- (2 ^ 63) \<le> z \<Longrightarrow> z < 2 ^ 63 \<Longrightarrow> sint (word_of_int z :: go_int) = z"
  by (simp add: sint_sbintrunc' signed_take_bit_int_eq_self)

lemma sint_of_nat: "int k < 2 ^ 63 \<Longrightarrow> sint (word_of_nat k :: go_int) = int k"
  using sint_in_range [of "int k"] by simp

lemma sint_mult_in_range:
  "- (2 ^ 63) \<le> sint a * sint b \<Longrightarrow> sint a * sint b < 2 ^ 63 \<Longrightarrow> sint (a * b :: go_int) = sint a * sint b"
  by (simp add: sint_word_ariths signed_take_bit_int_eq_self)

lemma sint_pred: "- (2 ^ 63) < sint a \<Longrightarrow> sint (a - 1 :: go_int) = sint a - 1"
  using sint_bounds [of a] by (simp add: sint_word_ariths signed_take_bit_int_eq_self)

lemma sint_inject: "sint (a::go_int) = sint b \<longleftrightarrow> a = b"
  using word_eq_iff_signed by auto

lemma sdiv_nonneg: "0 \<le> (a::int) \<Longrightarrow> 1 \<le> b \<Longrightarrow> a sdiv b = a div b"
  by (simp add: signed_divide_int_def sgn_if)

lemma sint_quo:
  assumes "0 \<le> sint L" "1 \<le> sint n"
  shows "sint (quo L n) = sint L div sint n"
proof -
  have "0 \<le> sint L div sint n" using assms by (simp add: pos_imp_zdiv_nonneg_iff)
  moreover have "sint L div sint n \<le> sint L" using assms
    using int_div_le_self by force
  ultimately show ?thesis
    using sint_bounds [of L] assms by (simp add: quo_def sdiv_nonneg sint_in_range)
qed

lemma block_bound: "0 \<le> (L::int) \<Longrightarrow> 1 \<le> N \<Longrightarrow> 0 \<le> k \<Longrightarrow> k \<le> N \<Longrightarrow> k * (L div N) \<le> L"
proof -
  assume a: "0 \<le> L" "1 \<le> N" "0 \<le> k" "k \<le> N"
  have "0 \<le> L div N" using a by (simp add: pos_imp_zdiv_nonneg_iff)
  then have "k * (L div N) \<le> N * (L div N)" using a by (simp add: mult_right_mono)
  also have "N * (L div N) = L - L mod N" by (simp add: minus_mod_eq_mult_div)
  also have "\<dots> \<le> L" using a by simp
  finally show ?thesis .
qed

subsection \<open>The loop in closed form\<close>

lemma Split_loop_closed:
  "0 \<le> sint i \<Longrightarrow> sint i \<le> sint (numRoutines h) \<Longrightarrow>
   Split_loop h bs i ranges = ranges @ map (Split_entry h bs) [nat (sint i) ..< nat (sint (numRoutines h))]"
proof (induction h bs i ranges rule: Split_loop.induct)
  case (1 h blockSize i ranges)
  show ?case
  proof (cases "i <s numRoutines h")
    case True
    note s = sint_succ [OF True]
    have lt: "sint i < sint (numRoutines h)" using True by (simp add: word_sless_alt)
    define end1 where "end1 = (if i = numRoutines h - 1 then contentLength h - 1 else (i + 1) * blockSize - 1)"
    have m: "Split_entry h blockSize (nat (sint i)) = [i * blockSize, end1]"
      by (simp add: Split_entry_def end1_def of_nat_nat_sint [OF "1.prems"(1)])
    have ih: "Split_loop h blockSize (i + 1) (ranges @ [[i * blockSize, end1]]) =
        (ranges @ [[i * blockSize, end1]]) @ map (Split_entry h blockSize) [nat (sint (i + 1)) ..< nat (sint (numRoutines h))]"
      unfolding end1_def by (rule "1.IH" [OF True refl refl refl]) (use "1.prems" s lt in simp_all)
    have "Split_loop h blockSize i ranges = Split_loop h blockSize (i + 1) (ranges @ [[i * blockSize, end1]])"
      using True by (subst Split_loop.simps) (simp add: end1_def Let_def)
    also note ih
    also have "(ranges @ [[i * blockSize, end1]]) @ map (Split_entry h blockSize) [nat (sint (i + 1)) ..< nat (sint (numRoutines h))]
         = ranges @ map (Split_entry h blockSize) [nat (sint i) ..< nat (sint (numRoutines h))]"
      using s lt "1.prems" m by (simp add: upt_conv_Cons nat_add_distrib)
    finally show ?thesis .
  next
    case False
    then have "sint i = sint (numRoutines h)" using "1.prems" by (simp add: word_sless_alt)
    then show ?thesis using False by (subst Split_loop.simps) simp
  qed
qed

lemma Split_closed:
  assumes "1 \<le> sint (numRoutines h)"
  shows "Split h = Inr (map (Split_entry h (quo (contentLength h) (numRoutines h))) [0 ..< nat (sint (numRoutines h))])"
proof -
  have "numRoutines h \<noteq> 0" using assms by auto
  then show ?thesis
    using assms Split_loop_closed [of 0 h "quo (contentLength h) (numRoutines h)" "[]"]
    by (simp add: Split_def)
qed

lemma Split_entry_sint:
  assumes L: "0 \<le> sint (contentLength h)" and n: "1 \<le> sint (numRoutines h)"
    and k: "int k < sint (numRoutines h)"
  shows "\<exists>s e. Split_entry h (quo (contentLength h) (numRoutines h)) k = [s, e]
      \<and> sint s = int k * (sint (contentLength h) div sint (numRoutines h))
      \<and> sint e = (if int k = sint (numRoutines h) - 1 then sint (contentLength h) - 1
                   else (int k + 1) * (sint (contentLength h) div sint (numRoutines h)) - 1)"
proof -
  define Lz where "Lz = sint (contentLength h)"
  define N where "N = sint (numRoutines h)"
  define B where "B = Lz div N"
  define bs where "bs = quo (contentLength h) (numRoutines h)"
  have bs: "sint bs = B" unfolding bs_def B_def Lz_def N_def by (rule sint_quo [OF L n])
  have B0: "0 \<le> B" using L n by (simp add: B_def Lz_def N_def pos_imp_zdiv_nonneg_iff)
  have Lr: "Lz < 2 ^ 63" and Nr: "N < 2 ^ 63" using sint_bounds by (simp_all add: Lz_def N_def)
  have kk: "sint (word_of_nat k :: go_int) = int k" using k Nr by (simp add: sint_of_nat N_def)
  have kB: "int k * B \<le> Lz" unfolding B_def
    by (rule block_bound) (use L n k in \<open>simp_all add: Lz_def N_def\<close>)
  have kB0: "0 \<le> int k * B" using B0 by simp
  have s: "sint (word_of_nat k * bs) = int k * B"
    using kB kB0 Lr by (subst sint_mult_in_range) (simp_all add: kk bs)
  have n1: "sint (numRoutines h - 1) = N - 1"
    using n by (subst sint_pred) (simp_all add: N_def)
  have last: "(word_of_nat k = numRoutines h - 1) \<longleftrightarrow> int k = N - 1"
    using sint_inject [of "word_of_nat k" "numRoutines h - 1"] by (simp add: n1 kk)
  have eL: "sint (contentLength h - 1) = Lz - 1"
    using L by (subst sint_pred) (simp_all add: Lz_def)
  have e: "sint ((word_of_nat k + 1) * bs - 1) = (int k + 1) * B - 1" if "int k \<noteq> N - 1"
  proof -
    have k1: "int k + 1 < N" using that k by (simp add: N_def)
    have "sint (word_of_nat (Suc k) :: go_int) = int (Suc k)"
      using k1 Nr by (subst sint_of_nat) simp_all
    then have a: "sint (word_of_nat k + 1 :: go_int) = int k + 1" by (simp add: add.commute)
    have "(int k + 1) * B \<le> Lz" unfolding B_def
      by (rule block_bound) (use L n k1 in \<open>simp_all add: Lz_def N_def\<close>)
    moreover have k0: "0 \<le> (int k + 1) * B" using B0 by simp
    ultimately have m: "sint ((word_of_nat k + 1) * bs) = (int k + 1) * B"
      using Lr by (subst sint_mult_in_range) (simp_all add: a bs)
    show ?thesis using k0 by (subst sint_pred) (simp_all add: m)
  qed
  show ?thesis
    using s last eL e by (simp add: Split_entry_def bs_def [symmetric] N_def [symmetric] Lz_def [symmetric] B_def [symmetric])
qed

text \<open>
  What \<^verbatim>\<open>Split\<close> returns for a length \<open>\<ge> 0\<close> and a count \<open>\<ge> 1\<close>, read as integers:
  no product or difference wraps around.
\<close>

lemma Split_ranges:
  assumes L: "0 \<le> sint (contentLength h)" and n: "1 \<le> sint (numRoutines h)"
  shows "\<exists>rs. Split h = Inr rs \<and> int (length rs) = sint (numRoutines h) \<and>
     (\<forall>k < length rs. length (rs ! k) = 2
        \<and> range_start (rs ! k) = int k * (sint (contentLength h) div sint (numRoutines h))
        \<and> range_end (rs ! k) =
            (if int k = sint (numRoutines h) - 1 then sint (contentLength h) - 1
             else (int k + 1) * (sint (contentLength h) div sint (numRoutines h)) - 1))"
proof -
  define rs where "rs = map (Split_entry h (quo (contentLength h) (numRoutines h))) [0 ..< nat (sint (numRoutines h))]"
  have len: "int (length rs) = sint (numRoutines h)" using n by (simp add: rs_def)
  have "length (rs ! k) = 2
        \<and> range_start (rs ! k) = int k * (sint (contentLength h) div sint (numRoutines h))
        \<and> range_end (rs ! k) =
            (if int k = sint (numRoutines h) - 1 then sint (contentLength h) - 1
             else (int k + 1) * (sint (contentLength h) div sint (numRoutines h)) - 1)"
    if "k < length rs" for k
  proof -
    have k: "int k < sint (numRoutines h)" using that len by simp
    have "rs ! k = Split_entry h (quo (contentLength h) (numRoutines h)) k"
      using that by (simp add: rs_def)
    with Split_entry_sint [OF L n k] show ?thesis
      by (auto simp: range_start_def range_end_def)
  qed
  then show ?thesis using Split_closed [OF n] len unfolding rs_def [symmetric] by blast
qed

lemma cover_int:
  fixes N B x :: int
  assumes "0 \<le> x" "x < (N - 1) * B" "1 \<le> N" "0 \<le> B"
  shows "0 \<le> x div B \<and> x div B < N - 1 \<and> (x div B) * B \<le> x \<and> x \<le> (x div B + 1) * B - 1"
proof -
  have B: "0 < B" using assms by (cases "B = 0") auto
  have 1: "0 \<le> x div B" using assms B by (simp add: pos_imp_zdiv_nonneg_iff)
  have m: "0 \<le> x mod B" "x mod B < B" using B by simp_all
  have d: "(x div B) * B = x - x mod B" by (simp add: minus_mod_eq_div_mult)
  have 3: "(x div B) * B \<le> x" using m d by simp
  have "(x div B + 1) * B = x - x mod B + B" using d by (simp add: algebra_simps)
  then have 4: "x < (x div B + 1) * B" using m by simp
  have 2: "x div B < N - 1"
  proof (rule ccontr)
    assume "\<not> x div B < N - 1"
    then have "(N - 1) * B \<le> (x div B) * B" using B by (simp add: mult_right_mono)
    with 3 assms(2) show False by simp
  qed
  show ?thesis using 1 2 3 4 by simp
qed

subsection \<open>The ranges partition the file\<close>

text \<open>
  C1. For a content length \<open>\<ge> 0\<close> and a number of routines \<open>\<ge> 1\<close>, \<^verbatim>\<open>Split\<close> returns
  ranges that are pairwise disjoint as sets of byte offsets, ordered by start offset,
  contiguous (each start is the end of the range before, plus one), and whose union is
  exactly the interval from \<open>0\<close> to the content length minus one.
\<close>

theorem Split_partition:
  assumes "0 \<le>s contentLength h" and "1 \<le>s numRoutines h"
  shows "\<exists>rs. Split h = Inr rs
    \<and> (\<forall>j k. j < k \<and> k < length rs \<longrightarrow> range_bytes (rs ! j) \<inter> range_bytes (rs ! k) = {})
    \<and> sorted (map range_start rs)
    \<and> (\<forall>k. Suc k < length rs \<longrightarrow> range_start (rs ! Suc k) = range_end (rs ! k) + 1)
    \<and> (\<Union>r \<in> set rs. range_bytes r) = {0 .. sint (contentLength h) - 1}"
proof -
  define Lz where "Lz = sint (contentLength h)"
  define N where "N = sint (numRoutines h)"
  define B where "B = Lz div N"
  have L: "0 \<le> Lz" and n: "1 \<le> N" using assms by (simp_all add: word_sle_eq Lz_def N_def)
  have B0: "0 \<le> B" using L n by (simp add: B_def pos_imp_zdiv_nonneg_iff)
  obtain rs where rs: "Split h = Inr rs" and len: "int (length rs) = N"
    and ent: "\<And>k. k < length rs \<Longrightarrow> range_start (rs ! k) = int k * B
        \<and> range_end (rs ! k) = (if int k = N - 1 then Lz - 1 else (int k + 1) * B - 1)"
    using Split_ranges [of h] L n unfolding Lz_def N_def B_def by blast
  have st: "range_start (rs ! k) = int k * B" if "k < length rs" for k
    using ent [OF that] by simp
  have en_last: "range_end (rs ! k) = Lz - 1" if "k < length rs" "int k = N - 1" for k
    using ent [OF that(1)] that(2) by simp
  have en_mid: "range_end (rs ! k) = (int k + 1) * B - 1" if "k < length rs" "int k \<noteq> N - 1" for k
    using ent [OF that(1)] that(2) by simp
  have en_le: "range_end (rs ! k) \<le> Lz - 1" if "k < length rs" for k
  proof (cases "int k = N - 1")
    case True
    then show ?thesis using en_last [OF that] by simp
  next
    case False
    have "(int k + 1) * B \<le> Lz" unfolding B_def
      by (rule block_bound) (use L n that len in simp_all)
    then show ?thesis using en_mid [OF that False] by simp
  qed
  have disj: "range_bytes (rs ! j) \<inter> range_bytes (rs ! k) = {}" if "j < k" "k < length rs" for j k
  proof -
    have j: "j < length rs" and jn: "int j \<noteq> N - 1" using that len by simp_all
    have "(int j + 1) * B \<le> int k * B" using that B0 by (simp add: mult_right_mono)
    then have "range_end (rs ! j) < range_start (rs ! k)"
      using en_mid [OF j jn] st [OF that(2)] by simp
    then show ?thesis by (auto simp: range_bytes_def)
  qed
  have sorted: "sorted (map range_start rs)"
  proof (subst sorted_iff_nth_mono, intro allI impI)
    fix i j assume "i \<le> j" "j < length (map range_start rs)"
    then have i: "i < length rs" and j: "j < length rs" by simp_all
    have "int i * B \<le> int j * B" using \<open>i \<le> j\<close> B0 by (simp add: mult_right_mono)
    then show "map range_start rs ! i \<le> map range_start rs ! j"
      using st [OF i] st [OF j] i j by simp
  qed
  have contig: "range_start (rs ! Suc k) = range_end (rs ! k) + 1" if "Suc k < length rs" for k
  proof -
    have k: "k < length rs" and kn: "int k \<noteq> N - 1" using that len by simp_all
    show ?thesis using st [OF that] en_mid [OF k kn] by (simp add: algebra_simps)
  qed
  have sub: "(\<Union>r \<in> set rs. range_bytes r) \<subseteq> {0 .. Lz - 1}"
  proof
    fix x assume "x \<in> (\<Union>r \<in> set rs. range_bytes r)"
    then obtain k where k: "k < length rs" and x: "x \<in> range_bytes (rs ! k)"
      by (auto simp: in_set_conv_nth)
    have "0 \<le> int k * B" using B0 by simp
    then show "x \<in> {0 .. Lz - 1}"
      using x st [OF k] en_le [OF k] by (simp add: range_bytes_def)
  qed
  have sup: "{0 .. Lz - 1} \<subseteq> (\<Union>r \<in> set rs. range_bytes r)"
  proof
    fix x assume x: "x \<in> {0 .. Lz - 1}"
    define K where "K = nat (N - 1)"
    have K: "K < length rs" "int K = N - 1" using n len by (simp_all add: K_def)
    show "x \<in> (\<Union>r \<in> set rs. range_bytes r)"
    proof (cases "x < (N - 1) * B")
      case False
      then have "x \<in> range_bytes (rs ! K)"
        using x st [OF K(1)] en_last [OF K] K(2) by (simp add: range_bytes_def)
      then show ?thesis using nth_mem [OF K(1)] by blast
    next
      case True
      from cover_int [OF _ True n B0] x
      have c: "0 \<le> x div B" "x div B < N - 1" "(x div B) * B \<le> x" "x \<le> (x div B + 1) * B - 1"
        by simp_all
      define k where "k = nat (x div B)"
      have k: "k < length rs" "int k \<noteq> N - 1" "int k = x div B" using c len by (simp_all add: k_def)
      have "x \<in> range_bytes (rs ! k)"
        using st [OF k(1)] en_mid [OF k(1,2)] c k(3) by (simp add: range_bytes_def)
      then show ?thesis using nth_mem [OF k(1)] by blast
    qed
  qed
  show ?thesis
    using rs disj sorted contig sub sup unfolding Lz_def by blast
qed

theorem Split_partition_witness:
  "0 \<le>s contentLength (job 10 4) \<and> 1 \<le>s numRoutines (job 10 4)
   \<and> Split (job 10 4) = Inr [[0, 1], [2, 3], [4, 5], [6, 9]]
   \<and> range_bytes [2, 3] \<inter> range_bytes [6, 9] = {}
   \<and> sorted (map range_start [[0, 1], [2, 3], [4, 5], [6, 9 :: go_int]])
   \<and> range_start [4, 5] = range_end [2, 3] + 1
   \<and> (\<Union>r \<in> set [[0, 1], [2, 3], [4, 5], [6, 9 :: go_int]]. range_bytes r) = {0 .. 9}"
proof -
  have a: "0 \<le>s contentLength (job 10 4)" and b: "1 \<le>s numRoutines (job 10 4)"
    by (simp_all add: job_def word_sle_eq)
  have e: "Split (job 10 4) = Inr [[0, 1], [2, 3], [4, 5], [6, 9]]"
    by code_simp
  have L: "sint (contentLength (job 10 4)) - 1 = 9"
    by (simp add: job_def)
  from Split_partition [OF a b] e L
  have p: "(\<forall>j k. j < k \<and> k < length [[0, 1], [2, 3], [4, 5], [6, 9 :: go_int]] \<longrightarrow>
         range_bytes ([[0, 1], [2, 3], [4, 5], [6, 9]] ! j) \<inter> range_bytes ([[0, 1], [2, 3], [4, 5], [6, 9 :: go_int]] ! k) = {})"
    and q: "sorted (map range_start [[0, 1], [2, 3], [4, 5], [6, 9 :: go_int]])"
    and r: "(\<forall>k. Suc k < length [[0, 1], [2, 3], [4, 5], [6, 9 :: go_int]] \<longrightarrow>
         range_start ([[0, 1], [2, 3], [4, 5], [6, 9 :: go_int]] ! Suc k) = range_end ([[0, 1], [2, 3], [4, 5], [6, 9]] ! k) + 1)"
    and u: "(\<Union>r \<in> set [[0, 1], [2, 3], [4, 5], [6, 9 :: go_int]]. range_bytes r) = {0 .. 9}"
    by auto
  from p [rule_format, of 1 3] have p': "range_bytes [2, 3] \<inter> range_bytes [6, 9 :: go_int] = {}"
    by simp
  from r [rule_format, of 1] have r': "range_start [4, 5 :: go_int] = range_end [2, 3] + 1"
    by simp
  show ?thesis using a b e p' q r' u by blast
qed

subsection \<open>The algorithm\<close>

text \<open>
  C2. For a content length \<open>\<ge> 0\<close> and a number of routines \<open>\<ge> 1\<close>, the block size is
  the quotient of the two truncated towards zero (\<open>sdiv\<close>), and \<^verbatim>\<open>Split\<close> returns, for
  each index \<open>i\<close> below the number of routines, the range from \<open>i * blockSize\<close> to
  \<open>(i + 1) * blockSize - 1\<close>, except that the last range ends at the content length
  minus one. Length 10 and 4 routines give \<open>[0,1], [2,3], [4,5], [6,9]\<close>.
\<close>

theorem Split_algorithm:
  "(0 \<le>s contentLength h \<and> 1 \<le>s numRoutines h \<longrightarrow>
      sint (quo (contentLength h) (numRoutines h)) = sint (contentLength h) sdiv sint (numRoutines h)
      \<and> (\<exists>rs. Split h = Inr rs \<and> int (length rs) = sint (numRoutines h)
           \<and> (\<forall>i < length rs. length (rs ! i) = 2
                 \<and> range_start (rs ! i) = int i * (sint (contentLength h) sdiv sint (numRoutines h))
                 \<and> range_end (rs ! i) =
                     (if int i = sint (numRoutines h) - 1 then sint (contentLength h) - 1
                      else (int i + 1) * (sint (contentLength h) sdiv sint (numRoutines h)) - 1))))
   \<and> Split (job 10 4) = Inr [[0, 1], [2, 3], [4, 5], [6, 9]]"
proof (intro conjI impI)
  assume a: "0 \<le>s contentLength h \<and> 1 \<le>s numRoutines h"
  then have L: "0 \<le> sint (contentLength h)" and n: "1 \<le> sint (numRoutines h)"
    by (simp_all add: word_sle_eq)
  have d: "sint (contentLength h) sdiv sint (numRoutines h) = sint (contentLength h) div sint (numRoutines h)"
    by (rule sdiv_nonneg [OF L n])
  show "sint (quo (contentLength h) (numRoutines h)) = sint (contentLength h) sdiv sint (numRoutines h)"
    by (simp only: d sint_quo [OF L n])
  show "\<exists>rs. Split h = Inr rs \<and> int (length rs) = sint (numRoutines h)
           \<and> (\<forall>i < length rs. length (rs ! i) = 2
                 \<and> range_start (rs ! i) = int i * (sint (contentLength h) sdiv sint (numRoutines h))
                 \<and> range_end (rs ! i) =
                     (if int i = sint (numRoutines h) - 1 then sint (contentLength h) - 1
                      else (int i + 1) * (sint (contentLength h) sdiv sint (numRoutines h)) - 1))"
    unfolding d by (rule Split_ranges [OF L n])
next
  show "Split (job 10 4) = Inr [[0, 1], [2, 3], [4, 5], [6, 9]]"
    by code_simp
qed

theorem Split_algorithm_witness:
  "0 \<le>s contentLength (job 1000 3) \<and> 1 \<le>s numRoutines (job 1000 3)
   \<and> sint (quo 1000 3 :: go_int) = 333
   \<and> Split (job 1000 3) = Inr [[0, 332], [333, 665], [666, 999]]
   \<and> range_start [333, 665] = 1 * (1000 sdiv 3)
   \<and> range_end [333, 665] = (1 + 1) * (1000 sdiv 3) - 1
   \<and> range_end [666, 999] = 1000 - 1"
proof -
  have a: "0 \<le>s contentLength (job 1000 3) \<and> 1 \<le>s numRoutines (job 1000 3)"
    by (simp add: job_def word_sle_eq)
  have e: "Split (job 1000 3) = Inr [[0, 332], [333, 665], [666, 999]]"
    by code_simp
  have v: "sint (contentLength (job 1000 3)) = 1000" "sint (numRoutines (job 1000 3)) = 3"
    "contentLength (job 1000 3) = 1000" "numRoutines (job 1000 3) = 3"
    by (simp_all add: job_def)
  from Split_algorithm [of "job 1000 3"] a
  have q: "sint (quo (contentLength (job 1000 3)) (numRoutines (job 1000 3)))
      = sint (contentLength (job 1000 3)) sdiv sint (numRoutines (job 1000 3))"
    and r: "\<exists>rs. Split (job 1000 3) = Inr rs \<and> int (length rs) = sint (numRoutines (job 1000 3))
           \<and> (\<forall>i < length rs. length (rs ! i) = 2
                 \<and> range_start (rs ! i) = int i * (sint (contentLength (job 1000 3)) sdiv sint (numRoutines (job 1000 3)))
                 \<and> range_end (rs ! i) =
                     (if int i = sint (numRoutines (job 1000 3)) - 1 then sint (contentLength (job 1000 3)) - 1
                      else (int i + 1) * (sint (contentLength (job 1000 3)) sdiv sint (numRoutines (job 1000 3))) - 1))"
    by blast+
  from r e have r': "\<forall>i < 3. range_start ([[0, 332], [333, 665], [666, 999 :: go_int]] ! i) = int i * (1000 sdiv 3)
                 \<and> range_end ([[0, 332], [333, 665], [666, 999 :: go_int]] ! i) =
                     (if int i = 3 - 1 then 1000 - 1 else (int i + 1) * (1000 sdiv 3) - 1)"
    unfolding v by auto
  from r' [rule_format, of 1] have r1: "range_start [333, 665 :: go_int] = 1 * (1000 sdiv 3)"
    "range_end [333, 665 :: go_int] = (1 + 1) * (1000 sdiv 3) - 1"
    by simp_all
  from r' [rule_format, of 2] have r2: "range_end [666, 999 :: go_int] = 1000 - 1"
    by simp
  from q have q': "sint (quo 1000 3 :: go_int) = 333"
    unfolding v by (simp add: signed_divide_int_def)
  show ?thesis using a e q' r1 r2 by blast
qed

subsection \<open>The number of ranges\<close>

text \<open>
  C3. For a content length \<open>\<ge> 0\<close> and a number of routines \<open>\<ge> 1\<close>, \<^verbatim>\<open>Split\<close> returns
  exactly as many ranges as there are routines, also when there are more routines than
  bytes; then some range is degenerate, with its start beyond its end.
\<close>

theorem Split_count:
  assumes "0 \<le>s contentLength h" and "1 \<le>s numRoutines h"
  shows "\<exists>rs. Split h = Inr rs \<and> int (length rs) = sint (numRoutines h)
    \<and> (contentLength h <s numRoutines h \<longrightarrow> (\<exists>r \<in> set rs. range_end r < range_start r))"
proof -
  define Lz where "Lz = sint (contentLength h)"
  define N where "N = sint (numRoutines h)"
  have L: "0 \<le> Lz" and n: "1 \<le> N" using assms by (simp_all add: word_sle_eq Lz_def N_def)
  obtain rs where rs: "Split h = Inr rs" and len: "int (length rs) = N"
    and ent: "\<And>k. k < length rs \<Longrightarrow> range_start (rs ! k) = int k * (Lz div N)
        \<and> range_end (rs ! k) = (if int k = N - 1 then Lz - 1 else (int k + 1) * (Lz div N) - 1)"
    using Split_ranges [of h] L n unfolding Lz_def N_def by blast
  have "\<exists>r \<in> set rs. range_end r < range_start r" if "contentLength h <s numRoutines h"
  proof -
    have lt: "Lz < N" using that by (simp add: word_sless_alt Lz_def N_def)
    then have B: "Lz div N = 0" using L by simp
    have 0: "0 < length rs" using len n by auto
    have "range_end (rs ! 0) < range_start (rs ! 0)"
      using ent [OF 0] B lt by auto
    then show ?thesis using nth_mem [OF 0] by blast
  qed
  then show ?thesis using rs len unfolding N_def by blast
qed

theorem Split_count_witness:
  "0 \<le>s contentLength (job 2 5) \<and> 1 \<le>s numRoutines (job 2 5)
   \<and> contentLength (job 2 5) <s numRoutines (job 2 5)
   \<and> Split (job 2 5) = Inr [[0, - 1], [0, - 1], [0, - 1], [0, - 1], [0, 1]]
   \<and> int (length [[0, - 1], [0, - 1], [0, - 1], [0, - 1], [0, 1 :: go_int]]) = sint (numRoutines (job 2 5))
   \<and> (\<exists>r \<in> set [[0, - 1], [0, - 1], [0, - 1], [0, - 1], [0, 1 :: go_int]]. range_end r < range_start r)"
proof -
  have a: "0 \<le>s contentLength (job 2 5)" and b: "1 \<le>s numRoutines (job 2 5)"
    by (simp_all add: job_def word_sle_eq)
  have c: "contentLength (job 2 5) <s numRoutines (job 2 5)"
    by (simp add: job_def word_sless_alt)
  have e: "Split (job 2 5) = Inr [[0, - 1], [0, - 1], [0, - 1], [0, - 1], [0, 1]]"
    by code_simp
  from Split_count [OF a b] e c show ?thesis using a b by auto
qed

subsection \<open>Even division\<close>

text \<open>
  C4. For a content length \<open>\<ge> 0\<close> and a number of routines \<open>\<ge> 1\<close> that divides it
  evenly, every range that \<^verbatim>\<open>Split\<close> returns has the same length, the content length
  divided by the number of routines.
\<close>

theorem Split_even:
  assumes "0 \<le>s contentLength h" and "1 \<le>s numRoutines h"
    and "sint (numRoutines h) dvd sint (contentLength h)"
  shows "\<exists>rs. Split h = Inr rs
    \<and> (\<forall>r \<in> set rs. range_end r - range_start r + 1 = sint (contentLength h) div sint (numRoutines h))"
proof -
  define Lz where "Lz = sint (contentLength h)"
  define N where "N = sint (numRoutines h)"
  define B where "B = Lz div N"
  have L: "0 \<le> Lz" and n: "1 \<le> N" using assms by (simp_all add: word_sle_eq Lz_def N_def)
  have NB: "N * B = Lz" unfolding B_def
    by (rule dvd_mult_div_cancel) (use assms(3) in \<open>simp add: Lz_def N_def\<close>)
  obtain rs where rs: "Split h = Inr rs" and len: "int (length rs) = N"
    and ent: "\<And>k. k < length rs \<Longrightarrow> range_start (rs ! k) = int k * B
        \<and> range_end (rs ! k) = (if int k = N - 1 then Lz - 1 else (int k + 1) * B - 1)"
    using Split_ranges [of h] L n unfolding Lz_def N_def B_def by blast
  have "range_end r - range_start r + 1 = B" if "r \<in> set rs" for r
  proof -
    from that obtain k where k: "k < length rs" and r: "rs ! k = r"
      unfolding in_set_conv_nth by blast
    have st: "range_start r = int k * B" using ent [OF k] r by simp
    show ?thesis
    proof (cases "int k = N - 1")
      case True
      have en: "range_end r = Lz - 1" using ent [OF k] r True by simp
      have "Lz - (N - 1) * B = B" using NB by (simp add: algebra_simps)
      then show ?thesis unfolding st en True by simp
    next
      case False
      have en: "range_end r = (int k + 1) * B - 1" using ent [OF k] r False by simp
      show ?thesis unfolding st en by (simp add: algebra_simps)
    qed
  qed
  then show ?thesis using rs unfolding B_def Lz_def N_def by blast
qed

theorem Split_even_witness:
  "0 \<le>s contentLength (job 900 3) \<and> 1 \<le>s numRoutines (job 900 3)
   \<and> sint (numRoutines (job 900 3)) dvd sint (contentLength (job 900 3))
   \<and> Split (job 900 3) = Inr [[0, 299], [300, 599], [600, 899]]
   \<and> range_end [0, 299 :: go_int] - range_start [0, 299 :: go_int] + 1 = 300
   \<and> range_end [300, 599 :: go_int] - range_start [300, 599 :: go_int] + 1 = 300
   \<and> range_end [600, 899 :: go_int] - range_start [600, 899 :: go_int] + 1 = 300"
proof -
  have a: "0 \<le>s contentLength (job 900 3)" and b: "1 \<le>s numRoutines (job 900 3)"
    by (simp_all add: job_def word_sle_eq)
  have c: "sint (numRoutines (job 900 3)) dvd sint (contentLength (job 900 3))"
    by (simp add: job_def)
  have e: "Split (job 900 3) = Inr [[0, 299], [300, 599], [600, 899]]"
    by code_simp
  have v: "sint (contentLength (job 900 3)) div sint (numRoutines (job 900 3)) = 300"
    by (simp add: job_def)
  from Split_even [OF a b c] obtain rs where rs: "Split (job 900 3) = Inr rs"
    and all: "\<forall>r \<in> set rs. range_end r - range_start r + 1
        = sint (contentLength (job 900 3)) div sint (numRoutines (job 900 3))"
    by blast
  from rs e have "rs = [[0, 299], [300, 599], [600, 899]]"
    by simp
  with all v have "range_end [0, 299 :: go_int] - range_start [0, 299 :: go_int] + 1 = 300"
    and "range_end [300, 599 :: go_int] - range_start [300, 599 :: go_int] + 1 = 300"
    and "range_end [600, 899 :: go_int] - range_start [600, 899 :: go_int] + 1 = 300"
    by simp_all
  with a b c e show ?thesis by blast
qed

subsection \<open>Split depends on the two fields only\<close>

lemma Split_loop_fields:
  "contentLength h = contentLength h' \<Longrightarrow> numRoutines h = numRoutines h' \<Longrightarrow>
   Split_loop h bs i ranges = Split_loop h' bs i ranges"
proof (induction h bs i ranges rule: Split_loop.induct)
  case (1 h blockSize i ranges)
  show ?case
  proof (cases "i <s numRoutines h")
    case True
    define end1 where "end1 = (if i = numRoutines h - 1 then contentLength h - 1 else (i + 1) * blockSize - 1)"
    have l: "Split_loop h blockSize i ranges = Split_loop h blockSize (i + 1) (ranges @ [[i * blockSize, end1]])"
      using True by (subst Split_loop.simps) (simp add: end1_def Let_def)
    have r: "Split_loop h' blockSize i ranges = Split_loop h' blockSize (i + 1) (ranges @ [[i * blockSize, end1]])"
      using True "1.prems" by (subst Split_loop.simps) (simp add: end1_def Let_def)
    have "Split_loop h blockSize (i + 1) (ranges @ [[i * blockSize, end1]])
        = Split_loop h' blockSize (i + 1) (ranges @ [[i * blockSize, end1]])"
      unfolding end1_def by (rule "1.IH" [OF True refl refl refl "1.prems"])
    with l r show ?thesis by simp
  next
    case False
    have "Split_loop h blockSize i ranges = ranges"
      using False by (subst Split_loop.simps) simp
    moreover have "Split_loop h' blockSize i ranges = ranges"
      using False "1.prems" by (subst Split_loop.simps) simp
    ultimately show ?thesis by simp
  qed
qed

text \<open>
  C5. \<^verbatim>\<open>Split\<close> is a function of the content length and the number of routines alone:
  it takes no state and no world, and two downloaders that agree on these two fields,
  whatever their other fields, get the identical sequence of ranges (or the same panic).
\<close>

theorem Split_deterministic:
  assumes "contentLength h = contentLength h'" and "numRoutines h = numRoutines h'"
  shows "Split h = Split h'"
  using assms Split_loop_fields [OF assms] by (simp add: Split_def)

theorem Split_deterministic_witness:
  "contentLength (job 10 4) = contentLength ((job 10 4)\<lparr>url := ''http://other/x'', filename := ''x'', acceptRanges := False\<rparr>)
   \<and> numRoutines (job 10 4) = numRoutines ((job 10 4)\<lparr>url := ''http://other/x'', filename := ''x'', acceptRanges := False\<rparr>)
   \<and> Split (job 10 4) = Split ((job 10 4)\<lparr>url := ''http://other/x'', filename := ''x'', acceptRanges := False\<rparr>)
   \<and> job 10 4 \<noteq> (job 10 4)\<lparr>url := ''http://other/x'', filename := ''x'', acceptRanges := False\<rparr>"
proof -
  have a: "contentLength (job 10 4) = contentLength ((job 10 4)\<lparr>url := ''http://other/x'', filename := ''x'', acceptRanges := False\<rparr>)"
    and b: "numRoutines (job 10 4) = numRoutines ((job 10 4)\<lparr>url := ''http://other/x'', filename := ''x'', acceptRanges := False\<rparr>)"
    by simp_all
  have d: "job 10 4 \<noteq> (job 10 4)\<lparr>url := ''http://other/x'', filename := ''x'', acceptRanges := False\<rparr>"
    by (simp add: job_def)
  show ?thesis using a b d Split_deterministic [OF a b] by blast
qed

section \<open>Properties of the download\<close>

subsection \<open>One ranged download\<close>

lemma requests_of_append: "requests_of (xs @ ys) = requests_of xs @ requests_of ys"
  by (induction xs rule: requests_of.induct) simp_all

text \<open>\<^verbatim>\<open>save2file\<close>, case by case.\<close>

lemma save2file_open_err:
  "OpenFile_err w name = Some e \<Longrightarrow>
   save2file w name off resp s = Inl (OpenFileFailed e, s\<lparr>calls := calls s @ [OsOpenFile name]\<rparr>)"
  by (simp add: save2file_def os_OpenFile_def)

lemma save2file_missing:
  "OpenFile_err w name = None \<Longrightarrow> files s name = None \<Longrightarrow>
   save2file w name off resp s
     = Inl (OpenFileFailed (''open '' @ name @ '': no such file or directory''),
            s\<lparr>calls := calls s @ [OsOpenFile name]\<rparr>)"
  by (simp add: save2file_def os_OpenFile_def)

lemma save2file_seek_err:
  "OpenFile_err w name = None \<Longrightarrow> files s name = Some old \<Longrightarrow> Seek_err w name off = Some e \<Longrightarrow>
   save2file w name off resp s
     = Inl (SeekFailed e, s\<lparr>calls := calls s @ [OsOpenFile name, FileSeek name off]\<rparr>)"
  by (simp add: save2file_def os_OpenFile_def file_Seek_def)

lemma save2file_seek_negative:
  "OpenFile_err w name = None \<Longrightarrow> files s name = Some old \<Longrightarrow> Seek_err w name off = None \<Longrightarrow>
   off <s 0 \<Longrightarrow>
   save2file w name off resp s
     = Inl (SeekFailed (''seek '' @ name @ '': invalid argument''),
            s\<lparr>calls := calls s @ [OsOpenFile name, FileSeek name off]\<rparr>)"
  by (simp add: save2file_def os_OpenFile_def file_Seek_def)

lemma save2file_read_err:
  "OpenFile_err w name = None \<Longrightarrow> files s name = Some old \<Longrightarrow> Seek_err w name off = None \<Longrightarrow>
   \<not> off <s 0 \<Longrightarrow> Body resp = Inl e \<Longrightarrow>
   save2file w name off resp s
     = Inl (ReadBodyFailed e, s\<lparr>calls := calls s @ [OsOpenFile name, FileSeek name off, ReadAll]\<rparr>)"
  by (simp add: save2file_def os_OpenFile_def file_Seek_def ioutil_ReadAll_def)

lemma save2file_write_err:
  "OpenFile_err w name = None \<Longrightarrow> files s name = Some old \<Longrightarrow> Seek_err w name off = None \<Longrightarrow>
   \<not> off <s 0 \<Longrightarrow> Body resp = Inr content \<Longrightarrow> Write_err w name off content = Some e \<Longrightarrow>
   save2file w name off resp s
     = Inl (WriteFailed e,
            s\<lparr>calls := calls s @ [OsOpenFile name, FileSeek name off, ReadAll, FileWrite name off content]\<rparr>)"
  by (simp add: save2file_def os_OpenFile_def file_Seek_def ioutil_ReadAll_def file_Write_def)

lemma save2file_ok:
  "OpenFile_err w name = None \<Longrightarrow> files s name = Some old \<Longrightarrow> Seek_err w name off = None \<Longrightarrow>
   \<not> off <s 0 \<Longrightarrow> Body resp = Inr content \<Longrightarrow> Write_err w name off content = None \<Longrightarrow>
   save2file w name off resp s
     = Inr (s\<lparr>calls := calls s @ [OsOpenFile name, FileSeek name off, ReadAll, FileWrite name off content],
             files := (files s)(name \<mapsto> write_at old (unat off) content)\<rparr>)"
  by (simp add: save2file_def os_OpenFile_def file_Seek_def ioutil_ReadAll_def file_Write_def)


text \<open>
  Whatever happens, \<^verbatim>\<open>save2file\<close> makes its four calls in order, each at most once, and
  stops at the first that fails.
\<close>

lemma save2file_calls:
  "\<exists>n content. calls (final_state (save2file w name off resp s))
       = calls s @ take n [OsOpenFile name, FileSeek name off, ReadAll, FileWrite name off content]"
proof -
  let ?r = "save2file w name off resp s"
  have t1: "calls (final_state ?r) = calls s @ [OsOpenFile name] \<Longrightarrow> ?thesis"
    by (rule exI [of _ 1]) simp
  have t2: "calls (final_state ?r) = calls s @ [OsOpenFile name, FileSeek name off] \<Longrightarrow> ?thesis"
    by (rule exI [of _ 2]) (simp add: numeral_2_eq_2)
  have t3: "calls (final_state ?r) = calls s @ [OsOpenFile name, FileSeek name off, ReadAll] \<Longrightarrow> ?thesis"
    by (rule exI [of _ 3]) (simp add: numeral_3_eq_3)
  have t4: "calls (final_state ?r) = calls s @ [OsOpenFile name, FileSeek name off, ReadAll, FileWrite name off content]
      \<Longrightarrow> ?thesis" for content
    by (rule exI [of _ 4], rule exI [of _ content]) simp
  show ?thesis
  proof (cases "OpenFile_err w name")
    case (Some e)
    show ?thesis by (rule t1) (simp add: save2file_open_err [OF Some] final_state_def)
  next
    case o: None
    show ?thesis
    proof (cases "files s name")
      case None
      show ?thesis by (rule t1) (simp add: save2file_missing [OF o None] final_state_def)
    next
      case f: (Some old)
      show ?thesis
      proof (cases "Seek_err w name off")
        case (Some e)
        show ?thesis by (rule t2) (simp add: save2file_seek_err [OF o f Some] final_state_def)
      next
        case k: None
        show ?thesis
        proof (cases "off <s 0")
          case True
          show ?thesis by (rule t2) (simp add: save2file_seek_negative [OF o f k True] final_state_def)
        next
          case False
          show ?thesis
          proof (cases "Body resp")
            case (Inl e)
            show ?thesis by (rule t3) (simp add: save2file_read_err [OF o f k False Inl] final_state_def)
          next
            case b: (Inr content)
            show ?thesis
            proof (cases "Write_err w name off content")
              case (Some e)
              show ?thesis
                by (rule t4 [of content]) (simp add: save2file_write_err [OF o f k False b Some] final_state_def)
            next
              case None
              show ?thesis
                by (rule t4 [of content]) (simp add: save2file_ok [OF o f k False b None] final_state_def)
            qed
          qed
        qed
      qed
    qed
  qed
qed

lemma save2file_success: "success (final_state (save2file w name off resp s)) = success s"
  by (simp add: save2file_def os_OpenFile_def file_Seek_def ioutil_ReadAll_def file_Write_def
      final_state_def Let_def split: option.splits sum.splits)

lemma save2file_requests:
  "requests_of (calls (final_state (save2file w name off resp s))) = requests_of (calls s)"
proof -
  obtain n content where "calls (final_state (save2file w name off resp s))
       = calls s @ take n [OsOpenFile name, FileSeek name off, ReadAll, FileWrite name off content]"
    using save2file_calls by blast
  moreover have "requests_of (take n [OsOpenFile name, FileSeek name off, ReadAll, FileWrite name off content]) = []"
    by (cases n; simp add: take_Cons')
  ultimately show ?thesis by (simp add: requests_of_append)
qed

text \<open>\<^verbatim>\<open>download\<close> sends the one request \<open>range_request\<close> and saves the response.\<close>

lemma download_new_request_err:
  "NewRequest_err w ''GET'' (url h) = Some e \<Longrightarrow>
   download w h a b s = Inl (CreateRequestFailed e, s)"
  by (simp add: download_def http_NewRequest_def)

lemma download_do_err:
  "NewRequest_err w ''GET'' (url h) = None \<Longrightarrow> RoundTrip w (range_request h a b) = Inl e \<Longrightarrow>
   download w h a b s
     = Inl (ExecuteRequestFailed e, s\<lparr>calls := calls s @ [HttpDo (range_request h a b)]\<rparr>)"
  by (simp add: download_def http_NewRequest_def Header_Set_def client_Do_def range_request_def)

lemma download_save:
  "NewRequest_err w ''GET'' (url h) = None \<Longrightarrow> RoundTrip w (range_request h a b) = Inr resp \<Longrightarrow>
   download w h a b s
     = save2file w (filename h) a resp (s\<lparr>calls := calls s @ [HttpDo (range_request h a b)]\<rparr>)"
  by (simp add: download_def http_NewRequest_def Header_Set_def client_Do_def range_request_def)


lemma download_success: "success (final_state (download w h a b s)) = success s"
proof (cases "NewRequest_err w ''GET'' (url h)")
  case (Some e)
  then show ?thesis by (simp add: download_new_request_err final_state_def)
next
  case n: None
  show ?thesis
  proof (cases "RoundTrip w (range_request h a b)")
    case (Inl e)
    then show ?thesis by (simp add: download_do_err [OF n] final_state_def)
  next
    case (Inr resp)
    then show ?thesis by (simp add: download_save [OF n] save2file_success)
  qed
qed

subsection \<open>Completion signals\<close>

lemma task_returns:
  "download w h a b s = Inr s1 \<Longrightarrow> task w h a b s = Inr (s1\<lparr>success := success s + 1\<rparr>)"
  using download_success [of w h a b s] by (simp add: task_def final_state_def)

lemma task_exits:
  "download w h a b s = Inl (x, s1) \<Longrightarrow> task w h a b s = Inl (x, s1) \<and> success s1 = success s"
  using download_success [of w h a b s] by (simp add: task_def final_state_def)

lemma task_Inr_success: "task w h a b s = Inr s' \<Longrightarrow> success s' = success s + 1"
  using download_success [of w h a b s]
  by (cases "download w h a b s") (auto simp: task_def final_state_def)

lemma task_Inl_success: "task w h a b s = Inl (x, s') \<Longrightarrow> success s' = success s"
  using download_success [of w h a b s]
  by (cases "download w h a b s") (auto simp: task_def final_state_def)

text \<open>When every task returns, each has sent its signal; when one ends the process, it has not.\<close>

lemma run_tasks_returns:
  "run_tasks w h sched pending s = Inr s' \<Longrightarrow> success s' = success s + length pending"
proof (induction w h sched pending s rule: run_tasks.induct)
  case (1 w h sched pending s)
  show ?case
  proof (cases "pending = []")
    case True
    with "1.prems" show ?thesis by (simp add: run_tasks.simps)
  next
    case False
    define k where "k = (case sched of [] \<Rightarrow> 0 | c # x \<Rightarrow> c mod length pending)"
    have k: "k < length pending" using False by (cases sched) (simp_all add: k_def)
    show ?thesis
    proof (cases "task w h (fst (pending ! k)) (snd (pending ! k)) s")
      case (Inl x)
      with "1.prems" False show ?thesis
        by (subst (asm) run_tasks.simps) (simp add: k_def Let_def)
    next
      case (Inr s1)
      have "run_tasks w h (tl sched) (take k pending @ drop (Suc k) pending) s1 = Inr s'"
        using "1.prems" False Inr by (subst (asm) run_tasks.simps) (simp add: k_def Let_def)
      from "1.IH" [OF False k_def Inr this] task_Inr_success [OF Inr] k
      show ?thesis by simp
    qed
  qed
qed

lemma run_tasks_exits:
  "run_tasks w h sched pending s = Inl (x, s') \<Longrightarrow> success s' < success s + length pending"
proof (induction w h sched pending s rule: run_tasks.induct)
  case (1 w h sched pending s)
  show ?case
  proof (cases "pending = []")
    case True
    with "1.prems" show ?thesis by (simp add: run_tasks.simps)
  next
    case False
    define k where "k = (case sched of [] \<Rightarrow> 0 | c # x \<Rightarrow> c mod length pending)"
    have k: "k < length pending" using False by (cases sched) (simp_all add: k_def)
    show ?thesis
    proof (cases "task w h (fst (pending ! k)) (snd (pending ! k)) s")
      case (Inl y)
      have "y = (x, s')"
        using "1.prems" False Inl by (subst (asm) run_tasks.simps) (simp add: k_def Let_def)
      with Inl task_Inl_success [of w h _ _ s x s'] False show ?thesis by simp
    next
      case (Inr s1)
      have "run_tasks w h (tl sched) (take k pending @ drop (Suc k) pending) s1 = Inl (x, s')"
        using "1.prems" False Inr by (subst (asm) run_tasks.simps) (simp add: k_def Let_def)
      from "1.IH" [OF False k_def Inr this] task_Inr_success [OF Inr] k
      show ?thesis by simp
    qed
  qed
qed

lemma launch_Split_entry:
  "launch (map (Split_entry h bs) ks)
     = Inr (map (\<lambda>k. (Split_entry h bs k ! 0, Split_entry h bs k ! 1)) ks)"
  by (induction ks) (simp_all add: task_args_def Split_entry_def)

text \<open>The path of \<^verbatim>\<open>Download\<close> with ranges, for at least one routine.\<close>

lemma Download_ranges:
  assumes "acceptRanges h" and "1 \<le>s numRoutines h"
  shows "Download w h sched s =
     (case Create_err w (filename h) of
        Some e \<Rightarrow> Inl (CreateFileFailed e, s\<lparr>calls := calls s @ [OsCreate (filename h)]\<rparr>)
      | None \<Rightarrow>
          (if MaxChanSize w <s numRoutines h
           then Inl (Panic MakechanSizeOutOfRange,
                  s\<lparr>files := (files s)(filename h \<mapsto> []), calls := calls s @ [OsCreate (filename h)]\<rparr>)
           else
             run_tasks w h sched
               (map (\<lambda>k. (Split_entry h (quo (contentLength h) (numRoutines h)) k ! 0,
                       Split_entry h (quo (contentLength h) (numRoutines h)) k ! 1))
               [0 ..< nat (sint (numRoutines h))])
               (s\<lparr>files := (files s)(filename h \<mapsto> []), calls := calls s @ [OsCreate (filename h)]\<rparr>)))"
proof -
  have n: "1 \<le> sint (numRoutines h)" using assms(2) by (simp add: word_sle_eq)
  then have "\<not> numRoutines h <s 0" by (simp add: word_sless_alt)
  then show ?thesis
    using assms(1)
    by (simp add: Download_def os_Create_def Split_closed [OF n] launch_Split_entry split: option.splits)
qed

text \<open>
  C7, as amended. In the download with ranges, a task whose \<^verbatim>\<open>download\<close> returns sends
  exactly one completion signal, so when all tasks return the number of signals is the
  number of routines. A task that meets a fatal error ends the process without sending
  its signal, and the count then stays below the number of routines.
\<close>

theorem task_signals:
  "(download w h a b s = Inr s1 \<longrightarrow> task w h a b s = Inr (s1\<lparr>success := success s + 1\<rparr>))
   \<and> (download w h a b s = Inl (x, s1) \<longrightarrow> task w h a b s = Inl (x, s1) \<and> success s1 = success s)
   \<and> (acceptRanges h \<and> 1 \<le>s numRoutines h \<and> Download w h sched s = Inr s2 \<longrightarrow>
         int (success s2) = int (success s) + sint (numRoutines h))
   \<and> (acceptRanges h \<and> 1 \<le>s numRoutines h \<and> Download w h sched s = Inl (x, s2) \<longrightarrow>
         int (success s2) < int (success s) + sint (numRoutines h))"
proof (intro conjI impI)
  assume "download w h a b s = Inr s1"
  then show "task w h a b s = Inr (s1\<lparr>success := success s + 1\<rparr>)" by (rule task_returns)
next
  assume "download w h a b s = Inl (x, s1)"
  then show "task w h a b s = Inl (x, s1)" and "success s1 = success s"
    using task_exits by blast+
next
  assume a: "acceptRanges h \<and> 1 \<le>s numRoutines h \<and> Download w h sched s = Inr s2"
  then have n: "1 \<le> sint (numRoutines h)" by (simp add: word_sle_eq)
  from a Download_ranges [of h w sched s]
  have "Create_err w (filename h) = None" by (auto split: option.splits)
  moreover from this a Download_ranges [of h w sched s]
  have "\<not> MaxChanSize w <s numRoutines h" by (auto split: if_splits)
  ultimately have "run_tasks w h sched
      (map (\<lambda>k. (Split_entry h (quo (contentLength h) (numRoutines h)) k ! 0,
                       Split_entry h (quo (contentLength h) (numRoutines h)) k ! 1))
               [0 ..< nat (sint (numRoutines h))])
      (s\<lparr>files := (files s)(filename h \<mapsto> []), calls := calls s @ [OsCreate (filename h)]\<rparr>) = Inr s2"
    using a Download_ranges [of h w sched s] by simp
  from run_tasks_returns [OF this] n
  show "int (success s2) = int (success s) + sint (numRoutines h)" by simp
next
  assume a: "acceptRanges h \<and> 1 \<le>s numRoutines h \<and> Download w h sched s = Inl (x, s2)"
  then have n: "1 \<le> sint (numRoutines h)" by (simp add: word_sle_eq)
  show "int (success s2) < int (success s) + sint (numRoutines h)"
  proof (cases "Create_err w (filename h)")
    case (Some e)
    with a Download_ranges [of h w sched s] have "success s2 = success s" by auto
    with n show ?thesis by simp
  next
    case None
    show ?thesis
    proof (cases "MaxChanSize w <s numRoutines h")
      case True
      with None a Download_ranges [of h w sched s] have "success s2 = success s" by auto
      with n show ?thesis by simp
    next
      case False
      with None a Download_ranges [of h w sched s]
      have "run_tasks w h sched
          (map (\<lambda>k. (Split_entry h (quo (contentLength h) (numRoutines h)) k ! 0,
                       Split_entry h (quo (contentLength h) (numRoutines h)) k ! 1))
               [0 ..< nat (sint (numRoutines h))])
          (s\<lparr>files := (files s)(filename h \<mapsto> []), calls := calls s @ [OsCreate (filename h)]\<rparr>) = Inl (x, s2)"
        by simp
      from run_tasks_exits [OF this] n show ?thesis by simp
    qed
  qed
qed

theorem task_signals_witness:
  "fatal_of (download (world_replying (reply 206 [1, 2])) (job 4 2) 0 1 state_created) = None
   \<and> fatal_of (task (world_replying (reply 206 [1, 2])) (job 4 2) 0 1 state_created) = None
   \<and> success (final_state (task (world_replying (reply 206 [1, 2])) (job 4 2) 0 1 state_created))
       = success state_created + 1
   \<and> acceptRanges (job 4 2) \<and> 1 \<le>s numRoutines (job 4 2)
   \<and> fatal_of (Download (world_replying (reply 206 [1, 2])) (job 4 2) [1] state0) = None
   \<and> int (success (final_state (Download (world_replying (reply 206 [1, 2])) (job 4 2) [1] state0)))
       = int (success state0) + sint (numRoutines (job 4 2))"
proof -
  let ?w = "world_replying (reply 206 [1, 2])"
  have d: "fatal_of (download ?w (job 4 2) 0 1 state_created) = None"
    by code_simp
  then obtain s1 where s1: "download ?w (job 4 2) 0 1 state_created = Inr s1"
    by (cases "download ?w (job 4 2) 0 1 state_created") (auto simp: fatal_of_def)
  have t: "task ?w (job 4 2) 0 1 state_created = Inr (s1\<lparr>success := success state_created + 1\<rparr>)"
    using task_signals [where w = ?w and h = "job 4 2" and a = 0 and b = 1 and s = state_created and ?s1.0 = s1]
      s1 by blast
  have a: "acceptRanges (job 4 2)" and b: "1 \<le>s numRoutines (job 4 2)"
    by (simp_all add: job_def word_sle_eq)
  have D: "fatal_of (Download ?w (job 4 2) [1] state0) = None"
    by code_simp
  then obtain s2 where s2: "Download ?w (job 4 2) [1] state0 = Inr s2"
    by (cases "Download ?w (job 4 2) [1] state0") (auto simp: fatal_of_def)
  have c: "int (success s2) = int (success state0) + sint (numRoutines (job 4 2))"
    using task_signals [where h = "job 4 2" and w = ?w and sched = "[1]" and s = state0 and ?s2.0 = s2]
      a b s2 by blast
  have t1: "fatal_of (task ?w (job 4 2) 0 1 state_created) = None"
    and t2: "success (final_state (task ?w (job 4 2) 0 1 state_created)) = success state_created + 1"
    unfolding t by (simp_all add: fatal_of_def final_state_def)
  have c': "int (success (final_state (Download ?w (job 4 2) [1] state0)))
      = int (success state0) + sint (numRoutines (job 4 2))"
    unfolding s2 using c by (simp add: final_state_def)
  show ?thesis
    using d t1 t2 a b D c' by blast
qed

text \<open>
  The claim as stated fails where a task fails: with no connection, the task ends the
  process and the channel has received nothing from it; the whole download ends with
  no signal sent for its four tasks.
\<close>

theorem failed_task_sends_nothing_counterexample:
  "fatal_of (task world_refusing (job 10 4) 0 1 state_created)
       = Some (ExecuteRequestFailed ''connection refused'')
   \<and> success (final_state (task world_refusing (job 10 4) 0 1 state_created)) = success state_created
   \<and> fatal_of (Download world_refusing (job 10 4) [] state0)
       = Some (ExecuteRequestFailed ''connection refused'')
   \<and> success (final_state (Download world_refusing (job 10 4) [] state0)) = 0"
proof -
  have "fatal_of (task world_refusing (job 10 4) 0 1 state_created)
       = Some (ExecuteRequestFailed ''connection refused'')"
    by code_simp
  moreover have "success (final_state (task world_refusing (job 10 4) 0 1 state_created)) = success state_created"
    by code_simp
  moreover have "fatal_of (Download world_refusing (job 10 4) [] state0)
       = Some (ExecuteRequestFailed ''connection refused'')"
    by code_simp
  moreover have "success (final_state (Download world_refusing (job 10 4) [] state0)) = 0"
    by code_simp
  ultimately show ?thesis by blast
qed

subsection \<open>Failures\<close>












subsection \<open>The download without ranges\<close>

lemma Download_single_get:
  assumes "\<not> acceptRanges h" and "Create_err w (filename h) = None"
    and "NewRequest_err w ''GET'' (url h) = None"
  shows "Download w h sched s =
     (case RoundTrip w \<lparr>Method = ''GET'', URL = url h, ReqHeader = Map.empty\<rparr> of
        Inl e \<Rightarrow>
          Inl (RequestUrlFailed (url h) e,
               s\<lparr>files := (files s)(filename h \<mapsto> []),
                  calls := calls s @ [OsCreate (filename h),
                    HttpDo \<lparr>Method = ''GET'', URL = url h, ReqHeader = Map.empty\<rparr>]\<rparr>)
      | Inr resp \<Rightarrow>
          save2file w (filename h) 0 resp
            (s\<lparr>files := (files s)(filename h \<mapsto> []),
               calls := calls s @ [OsCreate (filename h),
                 HttpDo \<lparr>Method = ''GET'', URL = url h, ReqHeader = Map.empty\<rparr>]\<rparr>))"
  using assms
  by (simp add: Download_def os_Create_def http_Get_def http_NewRequest_def client_Do_def
      split: sum.splits)

lemma Download_single_requests:
  assumes "\<not> acceptRanges h" and "Create_err w (filename h) = None"
    and "NewRequest_err w ''GET'' (url h) = None"
  shows "requests_of (calls (final_state (Download w h sched s)))
     = requests_of (calls s) @ [\<lparr>Method = ''GET'', URL = url h, ReqHeader = Map.empty\<rparr>]"
proof (cases "RoundTrip w \<lparr>Method = ''GET'', URL = url h, ReqHeader = Map.empty\<rparr>")
  case (Inl e)
  then show ?thesis
    by (simp add: Download_single_get [OF assms] final_state_def requests_of_append)
next
  case (Inr resp)
  then show ?thesis
    by (simp add: Download_single_get [OF assms] save2file_requests requests_of_append)
qed

lemma Download_single_ok:
  assumes "\<not> acceptRanges h" and "Create_err w (filename h) = None"
    and "NewRequest_err w ''GET'' (url h) = None"
    and "RoundTrip w \<lparr>Method = ''GET'', URL = url h, ReqHeader = Map.empty\<rparr> = Inr resp"
    and "Body resp = Inr content"
    and "OpenFile_err w (filename h) = None" and "Seek_err w (filename h) 0 = None"
    and "Write_err w (filename h) 0 content = None"
  shows "Download w h sched s =
     Inr (s\<lparr>files := (files s)(filename h \<mapsto> content),
            calls := calls s @ [OsCreate (filename h),
              HttpDo \<lparr>Method = ''GET'', URL = url h, ReqHeader = Map.empty\<rparr>,
              OsOpenFile (filename h), FileSeek (filename h) 0, ReadAll,
              FileWrite (filename h) 0 content]\<rparr>)"
proof -
  let ?s1 = "s\<lparr>files := (files s)(filename h \<mapsto> []),
               calls := calls s @ [OsCreate (filename h),
                 HttpDo \<lparr>Method = ''GET'', URL = url h, ReqHeader = Map.empty\<rparr>]\<rparr>"
  have f: "files ?s1 (filename h) = Some []" by simp
  have z: "\<not> (0 :: go_int) <s 0" by simp
  show ?thesis
    unfolding Download_single_get [OF assms(1-3)]
    by (simp add: assms(4) save2file_ok [OF assms(6) f assms(7) z assms(5) assms(8)] write_at_def)
qed

lemma Download_single_routines:
  "\<not> acceptRanges h \<Longrightarrow> Download w (h\<lparr>numRoutines := n\<rparr>) sched' s = Download w h sched s"
  by (simp add: Download_def split: prod.splits sum.splits)

text \<open>
  C8. When the downloader's flag says that the server does not accept ranges, the
  download is the same whatever the number of routines (and the schedule): once the file
  is created, it sends exactly one request, a \<^verbatim>\<open>GET\<close> with no \<^verbatim>\<open>Range\<close> header, and,
  when no call fails, writes the whole body of the response at offset \<open>0\<close> of the
  file, which then holds exactly that body.
\<close>

theorem single_stream_download:
  "\<not> acceptRanges h \<longrightarrow>
     Download w (h\<lparr>numRoutines := n\<rparr>) sched' s = Download w h sched s
     \<and> (Create_err w (filename h) = None \<and> NewRequest_err w ''GET'' (url h) = None \<longrightarrow>
          requests_of (calls (final_state (Download w h sched s)))
            = requests_of (calls s) @ [\<lparr>Method = ''GET'', URL = url h, ReqHeader = Map.empty\<rparr>]
          \<and> (RoundTrip w \<lparr>Method = ''GET'', URL = url h, ReqHeader = Map.empty\<rparr> = Inr resp
               \<and> Body resp = Inr content \<and> OpenFile_err w (filename h) = None
               \<and> Seek_err w (filename h) 0 = None \<and> Write_err w (filename h) 0 content = None \<longrightarrow>
                fatal_of (Download w h sched s) = None
                \<and> files (final_state (Download w h sched s)) (filename h) = Some content
                \<and> calls (final_state (Download w h sched s))
                    = calls s @ [OsCreate (filename h),
                        HttpDo \<lparr>Method = ''GET'', URL = url h, ReqHeader = Map.empty\<rparr>,
                        OsOpenFile (filename h), FileSeek (filename h) 0, ReadAll,
                        FileWrite (filename h) 0 content]))"
proof (intro impI conjI)
  assume a: "\<not> acceptRanges h"
  show "Download w (h\<lparr>numRoutines := n\<rparr>) sched' s = Download w h sched s"
    by (rule Download_single_routines [OF a])
  assume b: "Create_err w (filename h) = None \<and> NewRequest_err w ''GET'' (url h) = None"
  show "requests_of (calls (final_state (Download w h sched s)))
            = requests_of (calls s) @ [\<lparr>Method = ''GET'', URL = url h, ReqHeader = Map.empty\<rparr>]"
    using a b by (simp add: Download_single_requests)
  assume c: "RoundTrip w \<lparr>Method = ''GET'', URL = url h, ReqHeader = Map.empty\<rparr> = Inr resp
               \<and> Body resp = Inr content \<and> OpenFile_err w (filename h) = None
               \<and> Seek_err w (filename h) 0 = None \<and> Write_err w (filename h) 0 content = None"
  have d: "Download w h sched s =
     Inr (s\<lparr>files := (files s)(filename h \<mapsto> content),
            calls := calls s @ [OsCreate (filename h),
              HttpDo \<lparr>Method = ''GET'', URL = url h, ReqHeader = Map.empty\<rparr>,
              OsOpenFile (filename h), FileSeek (filename h) 0, ReadAll,
              FileWrite (filename h) 0 content]\<rparr>)"
    using a b c by (intro Download_single_ok) blast+
  show "fatal_of (Download w h sched s) = None"
    and "files (final_state (Download w h sched s)) (filename h) = Some content"
    and "calls (final_state (Download w h sched s))
          = calls s @ [OsCreate (filename h),
              HttpDo \<lparr>Method = ''GET'', URL = url h, ReqHeader = Map.empty\<rparr>,
              OsOpenFile (filename h), FileSeek (filename h) 0, ReadAll,
              FileWrite (filename h) 0 content]"
    unfolding d by (simp_all add: fatal_of_def final_state_def)
qed

theorem single_stream_download_witness:
  "\<not> acceptRanges ((job 3 4)\<lparr>acceptRanges := False\<rparr>)
   \<and> Download (world_replying (reply 200 [7, 8, 9])) ((job 3 4)\<lparr>acceptRanges := False, numRoutines := 1\<rparr>) [] state0
       = Download (world_replying (reply 200 [7, 8, 9])) ((job 3 4)\<lparr>acceptRanges := False\<rparr>) [2] state0
   \<and> requests_of (calls (final_state
         (Download (world_replying (reply 200 [7, 8, 9])) ((job 3 4)\<lparr>acceptRanges := False\<rparr>) [2] state0)))
       = [\<lparr>Method = ''GET'', URL = ''http://example.com/file.bin'', ReqHeader = Map.empty\<rparr>]
   \<and> fatal_of (Download (world_replying (reply 200 [7, 8, 9])) ((job 3 4)\<lparr>acceptRanges := False\<rparr>) [2] state0) = None
   \<and> files (final_state
         (Download (world_replying (reply 200 [7, 8, 9])) ((job 3 4)\<lparr>acceptRanges := False\<rparr>) [2] state0)) ''file.bin''
       = Some [7, 8, 9]"
proof -
  let ?w = "world_replying (reply 200 [7, 8, 9])"
  let ?h = "(job 3 4)\<lparr>acceptRanges := False\<rparr>"
  have a: "\<not> acceptRanges ?h"
    by simp
  have b: "Create_err ?w (filename ?h) = None \<and> NewRequest_err ?w ''GET'' (url ?h) = None"
    by (simp add: world_replying_def)
  have c: "RoundTrip ?w \<lparr>Method = ''GET'', URL = url ?h, ReqHeader = Map.empty\<rparr> = Inr (reply 200 [7, 8, 9])
      \<and> Body (reply 200 [7, 8, 9]) = Inr [7, 8, 9] \<and> OpenFile_err ?w (filename ?h) = None
      \<and> Seek_err ?w (filename ?h) 0 = None \<and> Write_err ?w (filename ?h) 0 [7, 8, 9] = None"
    by (simp add: world_replying_def reply_def)
  have u: "url ?h = ''http://example.com/file.bin''" and f: "filename ?h = ''file.bin''"
    by (simp_all add: job_def)
  have r: "requests_of (calls state0) = []"
    by (simp add: state0_def)
  note t = single_stream_download [where h = ?h and w = ?w and sched = "[2]" and sched' = "[]"
      and s = state0 and n = 1 and resp = "reply 200 [7, 8, 9]" and content = "[7, 8, 9]", rule_format, OF a]
  have 1: "Download ?w ((job 3 4)\<lparr>acceptRanges := False, numRoutines := 1\<rparr>) [] state0
       = Download ?w ?h [2] state0"
    by (rule t [THEN conjunct1])
  have 2: "requests_of (calls (final_state (Download ?w ?h [2] state0)))
       = [\<lparr>Method = ''GET'', URL = ''http://example.com/file.bin'', ReqHeader = Map.empty\<rparr>]"
    using t [THEN conjunct2, rule_format, OF b, THEN conjunct1] unfolding u r by simp
  have 3: "fatal_of (Download ?w ?h [2] state0) = None"
    and 4: "files (final_state (Download ?w ?h [2] state0)) ''file.bin'' = Some [7, 8, 9]"
    using t [THEN conjunct2, rule_format, OF b, THEN conjunct2, rule_format, OF c] unfolding f by blast+
  show ?thesis
    using a 1 2 3 4 by blast
qed

subsection \<open>The probe\<close>

lemma first_value_bytes:
  "(length (header_values m k) \<noteq> 0 \<and> header_values m k ! 0 = ''bytes'')
     \<longleftrightarrow> (\<exists>vs. m k = Some (''bytes'' # vs))"
proof (cases "m k")
  case None
  then show ?thesis by (simp add: header_values_def)
next
  case (Some vs)
  then show ?thesis by (cases vs) (simp_all add: header_values_def)
qed

text \<open>
  C10. When the \<^verbatim>\<open>HEAD\<close> request succeeds, the flag of the new downloader is true
  exactly when the response has a value for \<^verbatim>\<open>Accept-Ranges\<close> and the first value is
  the string \<^verbatim>\<open>bytes\<close>. In every other case the flag is false, and the download that
  follows is the one without ranges: once the file is created, its only request is a
  \<^verbatim>\<open>GET\<close> with no \<^verbatim>\<open>Range\<close> header.
\<close>

theorem probe_accept_ranges:
  "http_Head w u s = (Inr resp, s1) \<longrightarrow>
     (\<exists>h. NewDownloader w u n s = Inr (h, s1)
        \<and> url h = u \<and> numRoutines h = n
        \<and> (acceptRanges h \<longleftrightarrow> (\<exists>vs. Header resp ''Accept-Ranges'' = Some (''bytes'' # vs)))
        \<and> ((\<nexists>vs. Header resp ''Accept-Ranges'' = Some (''bytes'' # vs)) \<longrightarrow>
             \<not> acceptRanges h
             \<and> (Create_err w (filename h) = None \<and> NewRequest_err w ''GET'' u = None \<longrightarrow>
                  requests_of (calls (final_state (Download w h sched s1)))
                    = requests_of (calls s1) @ [\<lparr>Method = ''GET'', URL = u, ReqHeader = Map.empty\<rparr>])))"
proof (intro impI)
  assume hd: "http_Head w u s = (Inr resp, s1)"
  define h where "h = \<lparr>url = u, filename = path_Base u, contentLength = ContentLength resp,
      acceptRanges = (length (header_values (Header resp) ''Accept-Ranges'') \<noteq> 0
         \<and> header_values (Header resp) ''Accept-Ranges'' ! 0 = ''bytes''),
      numRoutines = n\<rparr>"
  have nd: "NewDownloader w u n s = Inr (h, s1)"
    by (simp add: NewDownloader_def hd h_def)
  have u: "url h = u" and n: "numRoutines h = n"
    by (simp_all add: h_def)
  have flag: "acceptRanges h \<longleftrightarrow> (\<exists>vs. Header resp ''Accept-Ranges'' = Some (''bytes'' # vs))"
    using first_value_bytes [of "Header resp" "''Accept-Ranges''"] by (simp add: h_def)
  have single: "requests_of (calls (final_state (Download w h sched s1)))
        = requests_of (calls s1) @ [\<lparr>Method = ''GET'', URL = u, ReqHeader = Map.empty\<rparr>]"
    if "\<not> acceptRanges h" "Create_err w (filename h) = None \<and> NewRequest_err w ''GET'' u = None"
    using Download_single_requests [of h w sched s1] that u by simp
  show "\<exists>h. NewDownloader w u n s = Inr (h, s1)
        \<and> url h = u \<and> numRoutines h = n
        \<and> (acceptRanges h \<longleftrightarrow> (\<exists>vs. Header resp ''Accept-Ranges'' = Some (''bytes'' # vs)))
        \<and> ((\<nexists>vs. Header resp ''Accept-Ranges'' = Some (''bytes'' # vs)) \<longrightarrow>
             \<not> acceptRanges h
             \<and> (Create_err w (filename h) = None \<and> NewRequest_err w ''GET'' u = None \<longrightarrow>
                  requests_of (calls (final_state (Download w h sched s1)))
                    = requests_of (calls s1) @ [\<lparr>Method = ''GET'', URL = u, ReqHeader = Map.empty\<rparr>]))"
    using nd u n flag single by blast
qed

theorem probe_accept_ranges_witness:
  "map_option acceptRanges (probed (NewDownloader
        (world_replying ((reply 200 [])\<lparr>Header := [''Accept-Ranges'' \<mapsto> [''bytes'']]\<rparr>))
        ''http://example.com/file.bin'' 4 state0)) = Some True
   \<and> map_option acceptRanges (probed (NewDownloader
        (world_replying ((reply 200 [])\<lparr>Header := [''Accept-Ranges'' \<mapsto> [''none'']]\<rparr>))
        ''http://example.com/file.bin'' 4 state0)) = Some False
   \<and> map_option acceptRanges (probed (NewDownloader
        (world_replying ((reply 200 [])\<lparr>Header := [''Accept-Ranges'' \<mapsto> [''Bytes'']]\<rparr>))
        ''http://example.com/file.bin'' 4 state0)) = Some False
   \<and> map_option acceptRanges (probed (NewDownloader
        (world_replying (reply 200 []))
        ''http://example.com/file.bin'' 4 state0)) = Some False
   \<and> requests_of (calls (final_state (main
        (world_replying ((reply 200 [])\<lparr>Header := [''Accept-Ranges'' \<mapsto> [''none'']]\<rparr>))
        ''http://example.com/file.bin'' 4 [] state0)))
       = [\<lparr>Method = ''HEAD'', URL = ''http://example.com/file.bin'', ReqHeader = Map.empty\<rparr>,
          \<lparr>Method = ''GET'', URL = ''http://example.com/file.bin'', ReqHeader = Map.empty\<rparr>]"
proof -
  let ?u = "''http://example.com/file.bin''"
  let ?s1 = "state0\<lparr>calls := calls state0 @ [HttpDo \<lparr>Method = ''HEAD'', URL = ?u, ReqHeader = Map.empty\<rparr>]\<rparr>"
  have head: "http_Head (world_replying r) ?u state0 = (Inr r, ?s1)" for r
    by (simp add: http_Head_def http_NewRequest_def client_Do_def world_replying_def)
  have flag: "map_option acceptRanges (probed (NewDownloader (world_replying r) ?u 4 state0))
      = Some (\<exists>vs. Header r ''Accept-Ranges'' = Some (''bytes'' # vs))" for r
  proof -
    from probe_accept_ranges [where w = "world_replying r" and u = ?u and s = state0 and n = 4
        and resp = r and ?s1.0 = ?s1, rule_format, OF head]
    obtain h where "NewDownloader (world_replying r) ?u 4 state0 = Inr (h, ?s1)"
      and "acceptRanges h \<longleftrightarrow> (\<exists>vs. Header r ''Accept-Ranges'' = Some (''bytes'' # vs))"
      by blast
    then show ?thesis by (simp add: probed_def)
  qed
  have 1: "map_option acceptRanges (probed (NewDownloader
        (world_replying ((reply 200 [])\<lparr>Header := [''Accept-Ranges'' \<mapsto> [''bytes'']]\<rparr>)) ?u 4 state0)) = Some True"
    unfolding flag by simp
  have 2: "map_option acceptRanges (probed (NewDownloader
        (world_replying ((reply 200 [])\<lparr>Header := [''Accept-Ranges'' \<mapsto> [''none'']]\<rparr>)) ?u 4 state0)) = Some False"
    unfolding flag by simp
  have 3: "map_option acceptRanges (probed (NewDownloader
        (world_replying ((reply 200 [])\<lparr>Header := [''Accept-Ranges'' \<mapsto> [''Bytes'']]\<rparr>)) ?u 4 state0)) = Some False"
    unfolding flag by simp
  have 4: "map_option acceptRanges (probed (NewDownloader (world_replying (reply 200 [])) ?u 4 state0)) = Some False"
    unfolding flag by (simp add: reply_def)
  let ?r = "(reply 200 [])\<lparr>Header := [''Accept-Ranges'' \<mapsto> [''none'']]\<rparr>"
  have no: "\<nexists>vs. Header ?r ''Accept-Ranges'' = Some (''bytes'' # vs)"
    by simp
  from probe_accept_ranges [where w = "world_replying ?r" and u = ?u and s = state0 and n = 4
      and resp = ?r and ?s1.0 = ?s1 and sched = "[]", rule_format, OF head]
  obtain h where nd: "NewDownloader (world_replying ?r) ?u 4 state0 = Inr (h, ?s1)"
    and single: "(\<nexists>vs. Header ?r ''Accept-Ranges'' = Some (''bytes'' # vs)) \<longrightarrow>
             \<not> acceptRanges h
             \<and> (Create_err (world_replying ?r) (filename h) = None
                   \<and> NewRequest_err (world_replying ?r) ''GET'' ?u = None \<longrightarrow>
                  requests_of (calls (final_state (Download (world_replying ?r) h [] ?s1)))
                    = requests_of (calls ?s1) @ [\<lparr>Method = ''GET'', URL = ?u, ReqHeader = Map.empty\<rparr>])"
    by blast
  have ok: "Create_err (world_replying ?r) (filename h) = None
      \<and> NewRequest_err (world_replying ?r) ''GET'' ?u = None"
    by (simp add: world_replying_def)
  from single [rule_format, OF no, THEN conjunct2, rule_format, OF ok]
  have "requests_of (calls (final_state (Download (world_replying ?r) h [] ?s1)))
      = [\<lparr>Method = ''HEAD'', URL = ?u, ReqHeader = Map.empty\<rparr>,
         \<lparr>Method = ''GET'', URL = ?u, ReqHeader = Map.empty\<rparr>]"
    by (simp add: state0_def)
  moreover have "main (world_replying ?r) ?u 4 [] state0 = Download (world_replying ?r) h [] ?s1"
  proof -
    have "ParseRequestURI_err (world_replying ?r) ?u = None"
      by (simp add: world_replying_def)
    then show ?thesis by (simp add: main_def nd)
  qed
  ultimately have 5: "requests_of (calls (final_state (main (world_replying ?r) ?u 4 [] state0)))
      = [\<lparr>Method = ''HEAD'', URL = ?u, ReqHeader = Map.empty\<rparr>,
         \<lparr>Method = ''GET'', URL = ?u, ReqHeader = Map.empty\<rparr>]"
    by simp
  show ?thesis
    using 1 2 3 4 5 by blast
qed

end
